theory Spec2Isabelle
  imports Main "HOL-Library.Char_ord" "HOL-Library.List_Lexorder"
begin

section \<open>The POSIX \<^verbatim>\<open>path\<close> module\<close>

text \<open>
  The sanitizer and the resolver are written against Node's \<^verbatim>\<open>path\<close> module.  The
  functions below are its POSIX variant (\<^verbatim>\<open>path.sep\<close> is the forward slash): a path is
  cut at every slash, empty and \<^verbatim>\<open>.\<close> segments are dropped, and \<^verbatim>\<open>..\<close> removes the
  segment before it.  The working directory of the process, which \<^verbatim>\<open>path.resolve\<close>
  reads through \<^verbatim>\<open>process.cwd()\<close>, is the explicit argument \<open>cwd\<close>.
\<close>

definition sep :: string where
  "sep = ''/''"

definition startsWith :: "string \<Rightarrow> string \<Rightarrow> bool" where
  "startsWith s p = (take (length p) s = p)"

fun splitSlash :: "string \<Rightarrow> string list" where
  "splitSlash [] = [[]]"
| "splitSlash (c # cs) =
     (if c = CHR ''/'' then [] # splitSlash cs
      else (case splitSlash cs of [] \<Rightarrow> [[c]] | s # ss \<Rightarrow> (c # s) # ss))"

fun joinSlash :: "string list \<Rightarrow> string" where
  "joinSlash [] = []"
| "joinSlash [s] = s"
| "joinSlash (s # t # ss) = s @ ''/'' @ joinSlash (t # ss)"

text \<open>
  \<^verbatim>\<open>normalizeString\<close>: \<open>st\<close> is the result built so far, last segment first.  A \<^verbatim>\<open>..\<close>
  removes the last segment unless there is none or it is itself \<^verbatim>\<open>..\<close>; then it is
  kept when \<open>allowAboveRoot\<close> holds and dropped otherwise.
\<close>

fun normSegs :: "bool \<Rightarrow> string list \<Rightarrow> string list \<Rightarrow> string list" where
  "normSegs allowAboveRoot st [] = rev st"
| "normSegs allowAboveRoot st (s # ss) =
     (if s = [] \<or> s = ''.'' then normSegs allowAboveRoot st ss
      else if s = ''..'' then
        (case st of
           [] \<Rightarrow> normSegs allowAboveRoot (if allowAboveRoot then [''..''] else []) ss
         | t # ts \<Rightarrow>
             if t = ''..'' then
               normSegs allowAboveRoot (if allowAboveRoot then ''..'' # st else st) ss
             else normSegs allowAboveRoot ts ss)
      else normSegs allowAboveRoot (s # st) ss)"

definition normalizeString :: "string \<Rightarrow> bool \<Rightarrow> string" where
  "normalizeString p allowAboveRoot = joinSlash (normSegs allowAboveRoot [] (splitSlash p))"

definition isAbsolute :: "string \<Rightarrow> bool" where
  "isAbsolute p = (case p of [] \<Rightarrow> False | c # _ \<Rightarrow> c = CHR ''/'')"

definition normalize :: "string \<Rightarrow> string" where
  "normalize p =
     (if p = [] then ''.''
      else
        let isAbs = isAbsolute p;
            trailingSeparator = (last p = CHR ''/'');
            q = normalizeString p (\<not> isAbs)
        in if q = [] then (if isAbs then ''/'' else if trailingSeparator then ''./'' else ''.'')
           else (if isAbs then ''/'' else []) @ q @ (if trailingSeparator then ''/'' else []))"

definition join :: "string list \<Rightarrow> string" where
  "join args =
     (let parts = filter (\<lambda>a. a \<noteq> []) args
      in if parts = [] then ''.'' else normalize (joinSlash parts))"

text \<open>
  \<^verbatim>\<open>path.resolve\<close> walks its arguments from the right, the working directory last,
  until one of them is absolute.
\<close>

fun resolveAcc :: "string list \<Rightarrow> string \<Rightarrow> string \<times> bool" where
  "resolveAcc [] acc = (acc, False)"
| "resolveAcc (p # ps) acc =
     (if p = [] then resolveAcc ps acc
      else if isAbsolute p then (p @ ''/'' @ acc, True)
      else resolveAcc ps (p @ ''/'' @ acc))"

definition resolve :: "string \<Rightarrow> string list \<Rightarrow> string" where
  "resolve cwd args =
     (case resolveAcc (rev args @ [cwd]) [] of
        (resolvedPath, resolvedAbsolute) \<Rightarrow>
          let q = normalizeString resolvedPath (\<not> resolvedAbsolute)
          in if resolvedAbsolute then ''/'' @ q
             else if q \<noteq> [] then q else ''.'')"

fun dropCommon :: "string list \<Rightarrow> string list \<Rightarrow> string list \<times> string list" where
  "dropCommon (x # xs) (y # ys) = (if x = y then dropCommon xs ys else (x # xs, y # ys))"
| "dropCommon xs ys = (xs, ys)"

definition pathSegments :: "string \<Rightarrow> string list" where
  "pathSegments p = filter (\<lambda>s. s \<noteq> []) (splitSlash p)"

text \<open>
  \<^verbatim>\<open>path.relative\<close>: both paths are resolved, their common leading segments are
  dropped, and the result climbs out of what is left of \<open>from\<close> and descends into what is
  left of \<open>to\<close>.
\<close>

definition relative :: "string \<Rightarrow> string \<Rightarrow> string \<Rightarrow> string" where
  "relative cwd from to =
     (if from = to then []
      else
        let f = resolve cwd [from]; t = resolve cwd [to]
        in if f = t then []
           else (case dropCommon (pathSegments f) (pathSegments t) of
                   (fs, ts) \<Rightarrow> joinSlash (replicate (length fs) ''..'' @ ts)))"

section \<open>Errors\<close>

datatype BaseErrorCode = VALIDATION_ERROR | FORBIDDEN | NOT_FOUND | INTERNAL_ERROR

datatype McpError = McpError (code: BaseErrorCode) (message: string)

section \<open>Sanitization.sanitizePath\<close>

record PathSanitizeOptions =
  rootDir :: "string option"
  toPosix :: "bool option"
  allowAbsolute :: "bool option"

record SanitizedPathInfo =
  sanitizedPath :: string
  originalInput :: string
  wasAbsolute :: bool
  convertedToRelative :: bool
  optionsUsed :: PathSanitizeOptions

definition isAsciiLetter :: "char \<Rightarrow> bool" where
  "isAsciiLetter c =
     (let n = (of_char c :: nat) in (65 \<le> n \<and> n \<le> 90) \<or> (97 \<le> n \<and> n \<le> 122))"

definition isSlash :: "char \<Rightarrow> bool" where
  "isSlash c = (c = CHR ''/'' \<or> c = CHR 0x5C)"

text \<open>Removing the first match of \<^verbatim>\<open>/^(?:[A-Za-z]:)?[/\\]+/\<close>.\<close>

definition stripRootMarker :: "string \<Rightarrow> string" where
  "stripRootMarker s =
     (case s of
        c # d # rest \<Rightarrow>
          if isAsciiLetter c \<and> d = CHR '':'' \<and> rest \<noteq> [] \<and> isSlash (hd rest)
          then dropWhile isSlash rest
          else dropWhile isSlash s
      | _ \<Rightarrow> dropWhile isSlash s)"

definition backslashesToSlashes :: "string \<Rightarrow> string" where
  "backslashesToSlashes s = map (\<lambda>c. if c = CHR 0x5C then CHR ''/'' else c) s"

definition effectiveOptions :: "string \<Rightarrow> PathSanitizeOptions \<Rightarrow> PathSanitizeOptions" where
  "effectiveOptions cwd options =
     \<lparr> rootDir = (case rootDir options of
                    None \<Rightarrow> None
                  | Some r \<Rightarrow> if r = [] then None else Some (resolve cwd [r])),
       toPosix = Some (case toPosix options of None \<Rightarrow> False | Some b \<Rightarrow> b),
       allowAbsolute = Some (case allowAbsolute options of None \<Rightarrow> False | Some b \<Rightarrow> b) \<rparr>"

definition validationError :: "string \<Rightarrow> McpError + 'a" where
  "validationError msg = Inl (McpError VALIDATION_ERROR msg)"

definition sanitizePath ::
  "string \<Rightarrow> string \<Rightarrow> PathSanitizeOptions \<Rightarrow> McpError + SanitizedPathInfo" where
  "sanitizePath cwd input options =
     (let eff = effectiveOptions cwd options;
          posix = (toPosix eff = Some True);
          allowAbs = (allowAbsolute eff = Some True)
      in
      if input = [] then validationError ''Invalid path input: must be a non-empty string.''
      else if CHR 0x00 \<in> set input then
        validationError ''Path contains null byte, which is disallowed.''
      else
        let normalized0 = normalize input;
            wasAbsoluteInitially = isAbsolute normalized0;
            normalized = (if posix then backslashesToSlashes normalized0 else normalized0);
            done = (\<lambda>final.
              Inr \<lparr> sanitizedPath = final,
                    originalInput = input,
                    wasAbsolute = wasAbsoluteInitially,
                    convertedToRelative =
                      (wasAbsoluteInitially \<and> \<not> isAbsolute final \<and> \<not> allowAbs),
                    optionsUsed = eff \<rparr>)
        in
        (case (case rootDir eff of None \<Rightarrow> None | Some r \<Rightarrow> if r = [] then None else Some r) of
           Some root \<Rightarrow>
             let fullPath = resolve cwd [root, normalized]
             in if \<not> startsWith fullPath (root @ sep) \<and> fullPath \<noteq> root then
                  validationError
                    ''Path traversal detected: attempts to escape the defined root directory.''
                else
                  let rel = relative cwd root fullPath;
                      final = (if rel = [] then ''.'' else rel)
                  in if isAbsolute final \<and> \<not> allowAbs then
                       validationError
                         ''Path resolved to absolute outside root when absolute paths are disallowed.''
                     else done final
         | None \<Rightarrow>
             if isAbsolute normalized then
               (if \<not> allowAbs then done (stripRootMarker normalized) else done normalized)
             else
               let resolvedAgainstCwd = resolve cwd [normalized];
                   currentWorkingDir = resolve cwd [''.'']
               in if \<not> startsWith resolvedAgainstCwd (currentWorkingDir @ sep)
                     \<and> resolvedAgainstCwd \<noteq> currentWorkingDir then
                    validationError
                      ''Relative path traversal detected (escapes current working directory context).''
                  else done normalized))"

text \<open>The normalized input after the optional conversion of backslashes (step 2).\<close>

definition converted :: "PathSanitizeOptions \<Rightarrow> string \<Rightarrow> string" where
  "converted options input =
     (if toPosix options = Some True then backslashesToSlashes (normalize input)
      else normalize input)"

subsection \<open>The sanitizer when the working directory cannot be read\<close>

text \<open>
  The definitions above take the working directory as a value.  \<^verbatim>\<open>process.cwd()\<close> throws
  when the working directory cannot be read (it has been removed, say), and
  \<^verbatim>\<open>path.resolve\<close> calls it only when its arguments do not give an absolute path.  The
  definitions below are the same code with the working directory found (\<open>Cwd\<close>) or not
  (\<open>CwdFails\<close>, with the message of the error).  They keep what the call throws: the
  options are made effective before the \<^verbatim>\<open>try\<close> block, so an error raised there leaves
  the function as it is (\<open>RawError\<close>), while the \<^verbatim>\<open>catch\<close> block turns every error raised
  inside the block into an \<open>McpError\<close> with the code \<open>VALIDATION_ERROR\<close> and the message of
  the error (\<open>Wrapped\<close>).  They also return, in order, the calls of \<^verbatim>\<open>path.resolve\<close>,
  \<^verbatim>\<open>path.normalize\<close> and \<^verbatim>\<open>path.relative\<close> that the function has made.
\<close>

datatype WorkingDir = Cwd string | CwdFails string

datatype Thrown = RawError string | Wrapped McpError

datatype PathCall =
    CallResolve "string list"
  | CallNormalize string
  | CallRelative string string

text \<open>\<^verbatim>\<open>path.resolve\<close> and \<^verbatim>\<open>path.relative\<close>; \<open>Inl\<close> is the message of the error of \<^verbatim>\<open>process.cwd()\<close>.\<close>

definition resolveEnv :: "WorkingDir \<Rightarrow> string list \<Rightarrow> string + string" where
  "resolveEnv env args =
     (case resolveAcc (rev args) [] of
        (resolvedPath, True) \<Rightarrow> Inr (''/'' @ normalizeString resolvedPath False)
      | (resolvedPath, False) \<Rightarrow>
          (case env of
             CwdFails msg \<Rightarrow> Inl msg
           | Cwd cwd \<Rightarrow> Inr (resolve cwd args)))"

definition relativeEnv :: "WorkingDir \<Rightarrow> string \<Rightarrow> string \<Rightarrow> string + string" where
  "relativeEnv env from to =
     (if from = to then Inr []
      else
        (case resolveEnv env [from] of
           Inl msg \<Rightarrow> Inl msg
         | Inr f \<Rightarrow>
             (case resolveEnv env [to] of
                Inl msg \<Rightarrow> Inl msg
              | Inr t \<Rightarrow>
                  if f = t then Inr []
                  else (case dropCommon (pathSegments f) (pathSegments t) of
                          (fs, ts) \<Rightarrow> Inr (joinSlash (replicate (length fs) ''..'' @ ts))))))"

text \<open>
  \<open>effectiveOptionsEnv\<close> is the object literal that precedes the \<^verbatim>\<open>try\<close> block,
  \<open>sanitizeBody\<close> the block itself with the message of what it throws, and
  \<open>sanitizePathEnv\<close> the function with its \<^verbatim>\<open>catch\<close>.
\<close>

definition effectiveOptionsEnv ::
  "WorkingDir \<Rightarrow> PathSanitizeOptions \<Rightarrow> PathCall list \<times> (string + PathSanitizeOptions)" where
  "effectiveOptionsEnv env options =
     (let posix = (case toPosix options of None \<Rightarrow> False | Some b \<Rightarrow> b);
          allowAbs = (case allowAbsolute options of None \<Rightarrow> False | Some b \<Rightarrow> b);
          withRoot = (\<lambda>root. \<lparr> rootDir = root, toPosix = Some posix, allowAbsolute = Some allowAbs \<rparr>)
      in
      case rootDir options of
        None \<Rightarrow> ([], Inr (withRoot None))
      | Some r \<Rightarrow>
          if r = [] then ([], Inr (withRoot None))
          else ([CallResolve [r]],
                case resolveEnv env [r] of
                  Inl msg \<Rightarrow> Inl msg
                | Inr root \<Rightarrow> Inr (withRoot (Some root))))"

definition sanitizeBody ::
  "WorkingDir \<Rightarrow> string \<Rightarrow> PathSanitizeOptions \<Rightarrow> PathCall list \<times> (string + SanitizedPathInfo)" where
  "sanitizeBody env input eff =
     (let posix = (toPosix eff = Some True);
          allowAbs = (allowAbsolute eff = Some True)
      in
      if input = [] then ([], Inl ''Invalid path input: must be a non-empty string.'')
      else if CHR 0x00 \<in> set input then
        ([], Inl ''Path contains null byte, which is disallowed.'')
      else
        let normalized0 = normalize input;
            wasAbsoluteInitially = isAbsolute normalized0;
            normalized = (if posix then backslashesToSlashes normalized0 else normalized0);
            done = (\<lambda>final.
              Inr \<lparr> sanitizedPath = final,
                    originalInput = input,
                    wasAbsolute = wasAbsoluteInitially,
                    convertedToRelative =
                      (wasAbsoluteInitially \<and> \<not> isAbsolute final \<and> \<not> allowAbs),
                    optionsUsed = eff \<rparr>)
        in
        (case (case rootDir eff of None \<Rightarrow> None | Some r \<Rightarrow> if r = [] then None else Some r) of
           Some root \<Rightarrow>
             (case resolveEnv env [root, normalized] of
                Inl msg \<Rightarrow> ([CallNormalize input, CallResolve [root, normalized]], Inl msg)
              | Inr fullPath \<Rightarrow>
                  if \<not> startsWith fullPath (root @ sep) \<and> fullPath \<noteq> root then
                    ([CallNormalize input, CallResolve [root, normalized]],
                     Inl ''Path traversal detected: attempts to escape the defined root directory.'')
                  else
                    ([CallNormalize input, CallResolve [root, normalized],
                      CallRelative root fullPath],
                     case relativeEnv env root fullPath of
                       Inl msg \<Rightarrow> Inl msg
                     | Inr rel \<Rightarrow>
                         let final = (if rel = [] then ''.'' else rel)
                         in if isAbsolute final \<and> \<not> allowAbs then
                              Inl ''Path resolved to absolute outside root when absolute paths are disallowed.''
                            else done final))
         | None \<Rightarrow>
             if isAbsolute normalized then
               ([CallNormalize input],
                if \<not> allowAbs then done (stripRootMarker normalized) else done normalized)
             else
               (case resolveEnv env [normalized] of
                  Inl msg \<Rightarrow> ([CallNormalize input, CallResolve [normalized]], Inl msg)
                | Inr resolvedAgainstCwd \<Rightarrow>
                    ([CallNormalize input, CallResolve [normalized], CallResolve [''.'']],
                     case resolveEnv env [''.''] of
                       Inl msg \<Rightarrow> Inl msg
                     | Inr currentWorkingDir \<Rightarrow>
                         if \<not> startsWith resolvedAgainstCwd (currentWorkingDir @ sep)
                            \<and> resolvedAgainstCwd \<noteq> currentWorkingDir then
                           Inl ''Relative path traversal detected (escapes current working directory context).''
                         else done normalized))))"

definition sanitizePathEnv ::
  "WorkingDir \<Rightarrow> string \<Rightarrow> PathSanitizeOptions \<Rightarrow> PathCall list \<times> (Thrown + SanitizedPathInfo)" where
  "sanitizePathEnv env input options =
     (case effectiveOptionsEnv env options of
        (calls, Inl msg) \<Rightarrow> (calls, Inl (RawError msg))
      | (calls, Inr eff) \<Rightarrow>
          (case sanitizeBody env input eff of
             (calls', Inl msg) \<Rightarrow> (calls @ calls', Inl (Wrapped (McpError VALIDATION_ERROR msg)))
           | (calls', Inr info) \<Rightarrow> (calls @ calls', Inr info)))"

section \<open>ServerState\<close>

record ServerState =
  defaultFilesystemPath :: "string option"
  fsBaseDirectory :: "string option"

text \<open>JavaScript truthiness of a \<^verbatim>\<open>string | null\<close>: \<^verbatim>\<open>null\<close> and the empty string are falsy.\<close>

definition truthy :: "string option \<Rightarrow> bool" where
  "truthy v = (case v of None \<Rightarrow> False | Some s \<Rightarrow> s \<noteq> [])"

definition resolverOptions :: PathSanitizeOptions where
  "resolverOptions = \<lparr> rootDir = None, toPosix = Some True, allowAbsolute = Some True \<rparr>"

definition forbiddenMessage :: "string \<Rightarrow> string" where
  "forbiddenMessage requestedPath =
     ''Access denied: The path '' @ [CHR 0x22] @ requestedPath @ [CHR 0x22]
       @ '' resolves to a location outside the allowed base directory.''"

definition withinBase :: "string \<Rightarrow> string \<Rightarrow> bool" where
  "withinBase base p = (startsWith p (base @ sep) \<or> p = base)"

text \<open>The part of \<^verbatim>\<open>resolvePath\<close> after the candidate \<open>absolutePath\<close> is fixed.\<close>

definition sanitizeAndConfine ::
  "string \<Rightarrow> ServerState \<Rightarrow> string \<Rightarrow> string \<Rightarrow> McpError + string" where
  "sanitizeAndConfine cwd st requestedPath absolutePath =
     (case sanitizePath cwd absolutePath resolverOptions of
        Inl e \<Rightarrow> Inl e
      | Inr info \<Rightarrow>
          let sanitizedAbsolutePath = sanitizedPath info
          in if truthy (fsBaseDirectory st) then
               let normalizedFsBaseDirectory = normalize (the (fsBaseDirectory st));
                   normalizedSanitizedAbsolutePath = normalize sanitizedAbsolutePath
               in if \<not> startsWith normalizedSanitizedAbsolutePath (normalizedFsBaseDirectory @ sep)
                     \<and> normalizedSanitizedAbsolutePath \<noteq> normalizedFsBaseDirectory
                  then Inl (McpError FORBIDDEN (forbiddenMessage requestedPath))
                  else Inr sanitizedAbsolutePath
             else Inr sanitizedAbsolutePath)"

definition noDefaultMessage :: string where
  "noDefaultMessage =
     ''Relative path provided, but no default filesystem path has been set for this session. Please provide an absolute path or set a default path first.''"

definition resolvePath :: "string \<Rightarrow> ServerState \<Rightarrow> string \<Rightarrow> McpError + string" where
  "resolvePath cwd st requestedPath =
     (if isAbsolute requestedPath then sanitizeAndConfine cwd st requestedPath requestedPath
      else if \<not> truthy (defaultFilesystemPath st) then
        Inl (McpError VALIDATION_ERROR noDefaultMessage)
      else
        sanitizeAndConfine cwd st requestedPath
          (join [the (defaultFilesystemPath st), requestedPath]))"

definition setDefaultFilesystemPath ::
  "string \<Rightarrow> ServerState \<Rightarrow> string \<Rightarrow> McpError + ServerState" where
  "setDefaultFilesystemPath cwd st newPath =
     (if \<not> isAbsolute newPath then
        Inl (McpError VALIDATION_ERROR ''Default path must be absolute.'')
      else (case sanitizePath cwd newPath resolverOptions of
              Inl e \<Rightarrow> Inl e
            | Inr info \<Rightarrow> Inr (st\<lparr> defaultFilesystemPath := Some (sanitizedPath info) \<rparr>)))"

section \<open>The directory enumerator (listFilesLogic)\<close>

text \<open>
  The file system below a directory is a tree.  \<open>Unreadable e\<close> is a directory whose
  \<^verbatim>\<open>fs.readdir\<close> fails with \<open>e\<close>; reading a \<open>File\<close> as a directory fails with
  \<open>ENOTDIR\<close>.  The comparison of names, \<^verbatim>\<open>String.prototype.localeCompare\<close>, depends
  on the locale of the process and is the argument \<open>localeCompare\<close>.  The mutable
  \<open>state\<close> object shared by all recursive calls is passed in and returned; it is
  returned also when the call throws.
\<close>

datatype ReaddirError = ENOENT | ENOTDIR | OtherError string

datatype FsNode = File | Dir "(string \<times> FsNode) list" | Unreadable ReaddirError

fun entryIsDirectory :: "FsNode \<Rightarrow> bool" where
  "entryIsDirectory File = False"
| "entryIsDirectory (Dir _) = True"
| "entryIsDirectory (Unreadable _) = True"

datatype DirectoryItem =
  DirectoryItem (name: string) (isDirectory: bool)
    (children: "DirectoryItem list option") (error: "string option")

record TraversalState =
  count :: int
  limit :: int
  truncated :: bool

definition readdirFailure :: "string \<Rightarrow> ReaddirError \<Rightarrow> McpError" where
  "readdirFailure dirPath e =
     (case e of
        ENOENT \<Rightarrow> McpError NOT_FOUND (''Directory not found at path: '' @ dirPath)
      | ENOTDIR \<Rightarrow> McpError VALIDATION_ERROR (''Path is not a directory: '' @ dirPath)
      | OtherError msg \<Rightarrow> McpError INTERNAL_ERROR (''Failed to read directory: '' @ msg))"

definition compareItems :: "(string \<Rightarrow> string \<Rightarrow> int) \<Rightarrow> DirectoryItem \<Rightarrow> DirectoryItem \<Rightarrow> int" where
  "compareItems localeCompare a b =
     (if isDirectory a \<noteq> isDirectory b then (if isDirectory a then - 1 else 1)
      else localeCompare (name a) (name b))"

text \<open>
  \<^verbatim>\<open>Array.prototype.sort\<close> is stable; \<open>sortItems\<close> is the stable insertion sort under
  the comparator of the source.
\<close>

fun insertItem ::
  "(string \<Rightarrow> string \<Rightarrow> int) \<Rightarrow> DirectoryItem \<Rightarrow> DirectoryItem list \<Rightarrow> DirectoryItem list" where
  "insertItem localeCompare x [] = [x]"
| "insertItem localeCompare x (y # ys) =
     (if compareItems localeCompare x y \<le> 0 then x # y # ys
      else y # insertItem localeCompare x ys)"

fun sortItems :: "(string \<Rightarrow> string \<Rightarrow> int) \<Rightarrow> DirectoryItem list \<Rightarrow> DirectoryItem list" where
  "sortItems localeCompare [] = []"
| "sortItems localeCompare (x # xs) = insertItem localeCompare x (sortItems localeCompare xs)"

definition nestedErrorMessage :: "McpError \<Rightarrow> string" where
  "nestedErrorMessage e =
     (if message e \<noteq> [] then message e else ''Unknown error reading directory'')"

fun readDirectoryRecursive ::
  "(string \<Rightarrow> string \<Rightarrow> int) \<Rightarrow> string \<Rightarrow> FsNode \<Rightarrow> bool \<Rightarrow> TraversalState
     \<Rightarrow> TraversalState \<times> (McpError + DirectoryItem list)"
and forEntries ::
  "(string \<Rightarrow> string \<Rightarrow> int) \<Rightarrow> string \<Rightarrow> (string \<times> FsNode) list \<Rightarrow> bool \<Rightarrow> TraversalState
     \<Rightarrow> DirectoryItem list \<Rightarrow> TraversalState \<times> DirectoryItem list"
where
  "readDirectoryRecursive localeCompare dirPath node includeNested state =
     (if truncated state \<or> limit state \<le> count state then (state\<lparr> truncated := True \<rparr>, Inr [])
      else (case node of
              File \<Rightarrow> (state, Inl (readdirFailure dirPath ENOTDIR))
            | Unreadable e \<Rightarrow> (state, Inl (readdirFailure dirPath e))
            | Dir entries \<Rightarrow>
                (case forEntries localeCompare dirPath entries includeNested state [] of
                   (state', items) \<Rightarrow> (state', Inr (sortItems localeCompare items)))))"
| "forEntries localeCompare dirPath [] includeNested state items = (state, items)"
| "forEntries localeCompare dirPath ((entryName, node) # rest) includeNested state items =
     (if limit state \<le> count state then (state\<lparr> truncated := True \<rparr>, items)
      else
        (case (if entryIsDirectory node \<and> includeNested then
                 (case readDirectoryRecursive localeCompare (join [dirPath, entryName]) node
                         includeNested (state\<lparr> count := count state + 1 \<rparr>) of
                    (state', Inr sub) \<Rightarrow>
                      (state', DirectoryItem entryName (entryIsDirectory node) (Some sub) None)
                  | (state', Inl e) \<Rightarrow>
                      (state', DirectoryItem entryName (entryIsDirectory node) None
                                 (Some (nestedErrorMessage e))))
               else (state\<lparr> count := count state + 1 \<rparr>,
                     DirectoryItem entryName (entryIsDirectory node) None None)) of
           (state', item) \<Rightarrow>
             if truncated state' then (state', items @ [item])
             else forEntries localeCompare dirPath rest includeNested state' (items @ [item])))"

text \<open>
  \<open>listFilesLogic\<close> returns the items themselves in the field \<open>tree\<close>; their rendering
  as text by \<^verbatim>\<open>formatTree\<close> and the \<^verbatim>\<open>message\<close> are not part of the model.  \<open>fsys\<close>
  gives the file-system node found at an absolute path.
\<close>

record ListFilesInput =
  path :: string
  includeNested :: bool
  maxEntries :: int

record ListFilesOutput =
  requestedPath :: string
  resolvedPath :: string
  tree :: "DirectoryItem list"
  itemCount :: int
  truncated :: bool

definition listFilesLogic ::
  "(string \<Rightarrow> string \<Rightarrow> int) \<Rightarrow> string \<Rightarrow> ServerState \<Rightarrow> (string \<Rightarrow> FsNode) \<Rightarrow> ListFilesInput
     \<Rightarrow> McpError + ListFilesOutput" where
  "listFilesLogic localeCompare cwd st fsys input =
     (case resolvePath cwd st (path input) of
        Inl e \<Rightarrow> Inl e
      | Inr absolutePath \<Rightarrow>
          (case readDirectoryRecursive localeCompare absolutePath (fsys absolutePath)
                  (includeNested input)
                  \<lparr> count = 0, limit = maxEntries input, truncated = False \<rparr> of
             (state, Inl e) \<Rightarrow> Inl e
           | (state, Inr items) \<Rightarrow>
               Inr \<lparr> requestedPath = path input, resolvedPath = absolutePath, tree = items,
                     itemCount = count state, truncated = TraversalState.truncated state \<rparr>))"

section \<open>Exclusion patterns (buildTreeForTesting)\<close>

datatype EntryType = TypeFile | TypeDirectory

datatype TreeEntry = TreeEntry string EntryType "TreeEntry list option"

definition shouldExclude :: "(string \<Rightarrow> string \<Rightarrow> bool) \<Rightarrow> string list \<Rightarrow> string \<Rightarrow> bool" where
  "shouldExclude minimatch excludePatterns relativePath =
     list_ex (\<lambda>pattern.
        if CHR ''*'' \<in> set pattern then minimatch relativePath pattern
        else minimatch relativePath pattern \<or>
             minimatch relativePath (''**/'' @ pattern) \<or>
             minimatch relativePath (''**/'' @ pattern @ ''/**'')) excludePatterns"

fun buildTreeForTesting ::
  "(string \<Rightarrow> string \<Rightarrow> bool) \<Rightarrow> string \<Rightarrow> string \<Rightarrow> FsNode \<Rightarrow> string \<Rightarrow> string list
     \<Rightarrow> ReaddirError + TreeEntry list"
and buildEntries ::
  "(string \<Rightarrow> string \<Rightarrow> bool) \<Rightarrow> string \<Rightarrow> string \<Rightarrow> (string \<times> FsNode) list \<Rightarrow> string
     \<Rightarrow> string list \<Rightarrow> TreeEntry list \<Rightarrow> ReaddirError + TreeEntry list"
where
  "buildTreeForTesting minimatch cwd currentPath node rootPath excludePatterns =
     (case node of
        File \<Rightarrow> Inl ENOTDIR
      | Unreadable e \<Rightarrow> Inl e
      | Dir entries \<Rightarrow> buildEntries minimatch cwd currentPath entries rootPath excludePatterns [])"
| "buildEntries minimatch cwd currentPath [] rootPath excludePatterns result = Inr result"
| "buildEntries minimatch cwd currentPath ((entryName, node) # rest) rootPath excludePatterns result =
     (if shouldExclude minimatch excludePatterns
           (relative cwd rootPath (join [currentPath, entryName]))
      then buildEntries minimatch cwd currentPath rest rootPath excludePatterns result
      else if entryIsDirectory node then
        (case buildTreeForTesting minimatch cwd (join [currentPath, entryName]) node rootPath
                 excludePatterns of
           Inl e \<Rightarrow> Inl e
         | Inr sub \<Rightarrow>
             buildEntries minimatch cwd currentPath rest rootPath excludePatterns
               (result @ [TreeEntry entryName TypeDirectory (Some sub)]))
      else buildEntries minimatch cwd currentPath rest rootPath excludePatterns
             (result @ [TreeEntry entryName TypeFile None]))"

text \<open>
  \<^verbatim>\<open>minimatch\<close> is a library outside the repository, so \<open>shouldExclude\<close> and
  \<open>buildTreeForTesting\<close> take the matcher as the argument \<open>minimatch\<close>.  For the examples,
  \<open>globMatch\<close> is a reference matcher for the option \<^verbatim>\<open>dot: true\<close> and patterns made of
  literal characters, \<^verbatim>\<open>?\<close>, \<^verbatim>\<open>*\<close> and \<^verbatim>\<open>**\<close>: path and pattern are split at slashes,
  \<^verbatim>\<open>**\<close> stands for any number of segments other than \<^verbatim>\<open>.\<close> and \<^verbatim>\<open>..\<close>, and within a
  segment \<^verbatim>\<open>*\<close> stands for any characters and \<^verbatim>\<open>?\<close> for one.  Brace sets, character
  classes and extended globs are not interpreted.
\<close>

datatype GlobPart = GlobStar | Segment string

fun wildcardMatch :: "string \<Rightarrow> string \<Rightarrow> bool" where
  "wildcardMatch [] s = (s = [])"
| "wildcardMatch (p # ps) [] = (p = CHR ''*'' \<and> wildcardMatch ps [])"
| "wildcardMatch (p # ps) (c # cs) =
     (if p = CHR ''*'' then wildcardMatch ps (c # cs) \<or> wildcardMatch (p # ps) cs
      else (p = CHR ''?'' \<or> p = c) \<and> wildcardMatch ps cs)"

definition dotSegment :: "string \<Rightarrow> bool" where
  "dotSegment s = (s = ''.'' \<or> s = ''..'')"

definition segmentMatch :: "string \<Rightarrow> string \<Rightarrow> bool" where
  "segmentMatch p f =
     (if CHR ''*'' \<notin> set p \<and> CHR ''?'' \<notin> set p then f = p
      else f \<noteq> [] \<and> \<not> dotSegment f \<and> wildcardMatch p f)"

fun matchOne :: "string list \<Rightarrow> GlobPart list \<Rightarrow> bool" where
  "matchOne [] [] = True"
| "matchOne [] (p # ps) = False"
| "matchOne (f # fs) [] = (f = [] \<and> fs = [])"
| "matchOne (f # fs) (GlobStar # ps) =
     (if ps = [] then list_all (\<lambda>s. \<not> dotSegment s) (f # fs)
      else matchOne (f # fs) ps \<or> (\<not> dotSegment f \<and> matchOne fs (GlobStar # ps)))"
| "matchOne (f # fs) (Segment p # ps) = (segmentMatch p f \<and> matchOne fs ps)"

text \<open>Splitting at runs of slashes, as \<^verbatim>\<open>split(/\/+/)\<close> does.\<close>

definition slashSplit :: "string \<Rightarrow> string list" where
  "slashSplit s =
     (case splitSlash s of
        [] \<Rightarrow> []
      | [x] \<Rightarrow> [x]
      | x # y # ys \<Rightarrow> x # filter (\<lambda>t. t \<noteq> []) (butlast (y # ys)) @ [last (y # ys)])"

definition globParts :: "string \<Rightarrow> GlobPart list" where
  "globParts pattern = map (\<lambda>s. if s = ''**'' then GlobStar else Segment s) (slashSplit pattern)"

definition globMatch :: "string \<Rightarrow> string \<Rightarrow> bool" where
  "globMatch p pattern =
     (if pattern = [] then p = []
      else if hd pattern = CHR ''#'' then False
      else
        let bangs = takeWhile (\<lambda>c. c = CHR ''!'') pattern;
            negate = odd (length bangs);
            hit = matchOne (slashSplit p) (globParts (drop (length bangs) pattern))
        in if hit then \<not> negate else negate)"

fun treeEntryName :: "TreeEntry \<Rightarrow> string" where
  "treeEntryName (TreeEntry n t sub) = n"

subsection \<open>Invariants of the traversal\<close>

text \<open>
  \<open>budgetOk\<close> is the invariant of the shared counter; \<open>budgetStep st st'\<close> says that a
  run from \<open>st\<close> to \<open>st'\<close> keeps it, keeps the limit, never lowers the count and changes
  nothing once \<open>truncated\<close> is set.
\<close>

definition budgetOk :: "TraversalState \<Rightarrow> bool" where
  "budgetOk st = (count st \<le> limit st \<and> (TraversalState.truncated st \<longrightarrow> limit st \<le> count st))"

definition budgetStep :: "TraversalState \<Rightarrow> TraversalState \<Rightarrow> bool" where
  "budgetStep st st' =
     (budgetOk st' \<and> limit st' = limit st \<and> count st \<le> count st' \<and>
      (TraversalState.truncated st \<longrightarrow> st' = st))"

text \<open>
  \<open>itemsIn\<close> counts an item and everything listed below it, and \<open>listed\<close> the items of
  a listing at all its levels: what the shared counter is to account for.
\<close>

fun itemsIn :: "DirectoryItem \<Rightarrow> nat" where
  "itemsIn (DirectoryItem n d ch e) =
     Suc (case ch of None \<Rightarrow> 0 | Some xs \<Rightarrow> sum_list (map itemsIn xs))"

definition listed :: "DirectoryItem list \<Rightarrow> int" where
  "listed items = int (sum_list (map itemsIn items))"

text \<open>
  A consistent comparator is total and transitive.  \<open>itemOrder\<close> is the order the listing
  promises: no file before a directory, and within directories and within files the names
  ascend.  \<open>treeOrdered\<close> asks it of every level below an item.
\<close>

definition consistentComparator :: "(string \<Rightarrow> string \<Rightarrow> int) \<Rightarrow> bool" where
  "consistentComparator cmp =
     ((\<forall>a b. cmp a b \<le> 0 \<or> cmp b a \<le> 0) \<and>
      (\<forall>a b c. cmp a b \<le> 0 \<and> cmp b c \<le> 0 \<longrightarrow> cmp a c \<le> 0))"

definition itemOrder :: "(string \<Rightarrow> string \<Rightarrow> int) \<Rightarrow> DirectoryItem \<Rightarrow> DirectoryItem \<Rightarrow> bool" where
  "itemOrder cmp a b =
     ((isDirectory b \<longrightarrow> isDirectory a) \<and>
      (isDirectory a = isDirectory b \<longrightarrow> cmp (name a) (name b) \<le> 0))"

fun treeOrdered :: "(string \<Rightarrow> string \<Rightarrow> int) \<Rightarrow> DirectoryItem \<Rightarrow> bool" where
  "treeOrdered cmp (DirectoryItem n d ch e) =
     (case ch of
        None \<Rightarrow> True
      | Some xs \<Rightarrow> sorted_wrt (itemOrder cmp) xs \<and> (\<forall>x \<in> set xs. treeOrdered cmp x))"

text \<open>
  \<^verbatim>\<open>String.prototype.localeCompare\<close> compares by the collation of the host (ICU in
  Node.js).  On names made of ASCII letters and digits that order looks first at the
  letters without regard to their case (digits before letters, a shorter name before its
  extensions), and between two names that differ in case only it puts, at the first
  difference, the lower-case letter first: \<open>a\<close>, \<open>A\<close>, \<open>b\<close>, \<open>B\<close>.  \<open>referenceCompare\<close> is
  that comparison, \<open>referenceLe\<close> its order; the characters that are no ASCII letters are
  compared by their code.  \<open>codepointCompare\<close> is the comparison by character code, in
  which every upper-case letter comes before every lower-case one: \<open>A\<close>, \<open>B\<close>, \<open>a\<close>, \<open>b\<close>.
\<close>

definition isUpperAscii :: "char \<Rightarrow> bool" where
  "isUpperAscii c = (let n = (of_char c :: nat) in 65 \<le> n \<and> n \<le> 90)"

definition toLowerAscii :: "char \<Rightarrow> char" where
  "toLowerAscii c = (if isUpperAscii c then char_of ((of_char c :: nat) + 32) else c)"

definition primaryKey :: "string \<Rightarrow> string" where
  "primaryKey s = map toLowerAscii s"

definition caseKey :: "string \<Rightarrow> bool list" where
  "caseKey s = map isUpperAscii s"

definition referenceLe :: "string \<Rightarrow> string \<Rightarrow> bool" where
  "referenceLe a b =
     (primaryKey a < primaryKey b \<or> (primaryKey a = primaryKey b \<and> caseKey a \<le> caseKey b))"

definition referenceCompare :: "string \<Rightarrow> string \<Rightarrow> int" where
  "referenceCompare a b =
     (if referenceLe a b then (if referenceLe b a then 0 else - 1) else 1)"

definition codepointCompare :: "string \<Rightarrow> string \<Rightarrow> int" where
  "codepointCompare a b = (if a < b then - 1 else if a = b then 0 else 1)"

subsection \<open>Normal forms of paths\<close>

text \<open>
  Notions for the proofs about the sanitizer.  A segment is clean when it is neither
  empty nor \<^verbatim>\<open>.\<close> nor \<^verbatim>\<open>..\<close>; a list of segments is in normal form when it is a run of
  \<^verbatim>\<open>..\<close> (none when \<open>allow\<close> is false) followed by clean segments, which is what
  \<open>normSegs\<close> returns.  \<open>pathOf\<close> builds the path that \<open>normalize\<close> returns from its
  segments, \<open>absSegs\<close> gives the segments of an absolute path, \<open>sanitized\<close> is the
  sanitized path of a call or its error, and \<open>withinCwd\<close> is the check of the branch
  without a root directory.
\<close>

definition cleanSegment :: "string \<Rightarrow> bool" where
  "cleanSegment s = (s \<noteq> [] \<and> s \<noteq> ''.'' \<and> s \<noteq> ''..'')"

definition normalForm :: "bool \<Rightarrow> string list \<Rightarrow> bool" where
  "normalForm allow xs =
     (\<exists>k cs. xs = replicate k ''..'' @ cs \<and> (\<forall>s \<in> set cs. cleanSegment s) \<and> (\<not> allow \<longrightarrow> k = 0))"

definition slashFree :: "string list \<Rightarrow> bool" where
  "slashFree xs = (\<forall>s \<in> set xs. CHR ''/'' \<notin> set s)"

definition pathOf :: "bool \<Rightarrow> string list \<Rightarrow> bool \<Rightarrow> string" where
  "pathOf a nf t =
     (if nf = [] then (if a then ''/'' else if t then ''./'' else ''.'')
      else (if a then ''/'' else []) @ joinSlash nf @ (if t then ''/'' else []))"

definition absSegs :: "string \<Rightarrow> string list" where
  "absSegs p = normSegs False [] (splitSlash p)"

definition cleanList :: "string list \<Rightarrow> bool" where
  "cleanList xs = ((\<forall>s \<in> set xs. cleanSegment s) \<and> slashFree xs)"

definition sanitized :: "string \<Rightarrow> string \<Rightarrow> PathSanitizeOptions \<Rightarrow> McpError + string" where
  "sanitized cwd input options = map_sum id sanitizedPath (sanitizePath cwd input options)"

definition withinCwd :: "string \<Rightarrow> string \<Rightarrow> bool" where
  "withinCwd cwd n =
     (startsWith (resolve cwd [n]) (resolve cwd [''.''] @ sep) \<or> resolve cwd [n] = resolve cwd [''.''])"

section \<open>Properties of the sanitizer\<close>

lemma splitSlash_nonempty [simp]: "splitSlash p \<noteq> []"
  by (induction p) (auto split: list.splits)

lemma splitSlash_no_slash: "s \<in> set (splitSlash p) \<Longrightarrow> CHR ''/'' \<notin> set s"
  by (induction p arbitrary: s) (auto split: list.splits if_splits)

lemma joinSlash_not_absolute:
  "\<forall>s \<in> set xs. s \<noteq> [] \<and> CHR ''/'' \<notin> set s \<Longrightarrow> \<not> isAbsolute (joinSlash xs)"
proof (cases xs)
  case Nil
  then show ?thesis by (simp add: isAbsolute_def)
next
  case (Cons x rest)
  assume a: "\<forall>s \<in> set xs. s \<noteq> [] \<and> CHR ''/'' \<notin> set s"
  with Cons obtain c cs where x: "x = c # cs" and c: "c \<noteq> CHR ''/''"
    by (cases x) auto
  show ?thesis
    using Cons x c by (cases rest) (simp_all add: isAbsolute_def)
qed

lemma dropCommon_subset:
  "dropCommon xs ys = (xs', ys') \<Longrightarrow> set xs' \<subseteq> set xs \<and> set ys' \<subseteq> set ys"
  by (induction xs ys arbitrary: xs' ys' rule: dropCommon.induct) (auto split: if_splits)

lemma pathSegments_clean: "s \<in> set (pathSegments p) \<Longrightarrow> s \<noteq> [] \<and> CHR ''/'' \<notin> set s"
  by (auto simp: pathSegments_def splitSlash_no_slash)

lemma relative_not_absolute: "\<not> isAbsolute (relative cwd a b)"
proof -
  have nil: "\<not> isAbsolute []"
    by (simp add: isAbsolute_def)
  have "\<not> isAbsolute (joinSlash (replicate (length fs) ''..'' @ ts))"
    if "dropCommon (pathSegments (resolve cwd [a])) (pathSegments (resolve cwd [b])) = (fs, ts)"
    for fs ts
  proof (rule joinSlash_not_absolute)
    from dropCommon_subset [OF that] pathSegments_clean
    show "\<forall>s \<in> set (replicate (length fs) ''..'' @ ts). s \<noteq> [] \<and> CHR ''/'' \<notin> set s"
      by auto
  qed
  with nil show ?thesis
    by (auto simp: relative_def Let_def split: prod.splits)
qed

lemma resolve_nonempty [simp]: "resolve cwd args \<noteq> []"
  by (simp add: resolve_def Let_def split: prod.splits)

subsection \<open>Splitting and joining at slashes\<close>

lemma joinSlash_splitSlash: "joinSlash (splitSlash p) = p"
proof (induction p)
  case Nil
  then show ?case by simp
next
  case (Cons c p)
  obtain s ss where sp: "splitSlash p = s # ss"
    by (cases "splitSlash p") simp_all
  show ?case
  proof (cases "c = CHR ''/''")
    case True
    with Cons sp show ?thesis by simp
  next
    case False
    with Cons sp show ?thesis by (cases ss) simp_all
  qed
qed

lemma splitSlash_append:
  "splitSlash (a @ CHR ''/'' # b) = splitSlash a @ splitSlash b"
  by (induction a) (auto split: list.splits)

lemma splitSlash_single: "CHR ''/'' \<notin> set s \<Longrightarrow> splitSlash s = [s]"
  by (induction s) auto

lemma splitSlash_joinSlash:
  "xs \<noteq> [] \<Longrightarrow> \<forall>s \<in> set xs. CHR ''/'' \<notin> set s \<Longrightarrow> splitSlash (joinSlash xs) = xs"
proof (induction xs rule: joinSlash.induct)
  case 1
  then show ?case by simp
next
  case (2 s)
  then show ?case by (simp add: splitSlash_single)
next
  case (3 s t ss)
  then show ?case
    using splitSlash_append [of s "joinSlash (t # ss)"]
    by (simp add: splitSlash_single)
qed

lemma joinSlash_Cons: "xs \<noteq> [] \<Longrightarrow> joinSlash (x # xs) = x @ CHR ''/'' # joinSlash xs"
  by (cases xs) simp_all

lemma joinSlash_append:
  "xs \<noteq> [] \<Longrightarrow> ys \<noteq> [] \<Longrightarrow> joinSlash (xs @ ys) = joinSlash xs @ CHR ''/'' # joinSlash ys"
  by (induction xs rule: joinSlash.induct) (simp_all add: joinSlash_Cons)

lemma joinSlash_eq_Nil: "\<forall>s \<in> set xs. s \<noteq> [] \<Longrightarrow> joinSlash xs = [] \<longleftrightarrow> xs = []"
  by (induction xs rule: joinSlash.induct) auto

lemma set_joinSlash: "set (joinSlash xs) \<subseteq> insert (CHR ''/'') (\<Union> (set ` set xs))"
  by (induction xs rule: joinSlash.induct) auto

lemma set_splitSlash_all: "\<forall>s \<in> set (splitSlash p). set s \<subseteq> set p"
proof (induction p)
  case Nil
  then show ?case by simp
next
  case (Cons c p)
  obtain s0 ss where sp: "splitSlash p = s0 # ss"
    by (cases "splitSlash p") simp_all
  with Cons have "set s0 \<subseteq> set p" and "\<forall>s \<in> set ss. set s \<subseteq> set p"
    by simp_all
  with sp show ?case
    by (cases "c = CHR ''/''") auto
qed

lemma set_splitSlash: "s \<in> set (splitSlash p) \<Longrightarrow> set s \<subseteq> set p"
  using set_splitSlash_all by blast

subsection \<open>The segments that normSegs returns\<close>

lemma normSegs_clean:
  "\<forall>s \<in> set cs. cleanSegment s \<Longrightarrow> normSegs allow st (cs @ xs) = normSegs allow (rev cs @ st) xs"
  by (induction cs arbitrary: st) (auto simp: cleanSegment_def)

lemma normSegs_clean_all:
  "\<forall>s \<in> set cs. cleanSegment s \<Longrightarrow> normSegs allow st cs = rev st @ cs"
  using normSegs_clean [of cs allow st "[]"] by simp

lemma normSegs_dots:
  "normSegs True (replicate j ''..'') (replicate k ''..'' @ xs) = normSegs True (replicate (j + k) ''..'') xs"
proof (induction k arbitrary: j)
  case 0
  then show ?case by simp
next
  case (Suc k)
  have "normSegs True (replicate j ''..'') (''..'' # replicate k ''..'' @ xs)
      = normSegs True (replicate (Suc j) ''..'') (replicate k ''..'' @ xs)"
    by (cases j) simp_all
  with Suc [of "Suc j"] show ?case by simp
qed

lemma normSegs_normalForm_id:
  assumes "normalForm allow xs"
  shows "normSegs allow [] xs = xs"
proof -
  from assms obtain k cs where xs: "xs = replicate k ''..'' @ cs"
    and cs: "\<forall>s \<in> set cs. cleanSegment s" and k: "\<not> allow \<longrightarrow> k = 0"
    by (auto simp: normalForm_def)
  show ?thesis
  proof (cases allow)
    case True
    have "normSegs True [] (replicate k ''..'' @ cs) = normSegs True (replicate (0 + k) ''..'') cs"
      using normSegs_dots [of 0 k cs] by simp
    also have "\<dots> = replicate k ''..'' @ cs"
      using normSegs_clean_all [OF cs, of True "replicate k ''..''"] by simp
    finally show ?thesis
      using True xs by simp
  next
    case False
    with k xs cs show ?thesis
      by (simp add: normSegs_clean_all)
  qed
qed

lemma normalForm_snoc:
  "normalForm allow xs \<Longrightarrow> cleanSegment s \<Longrightarrow> normalForm allow (xs @ [s])"
  unfolding normalForm_def
  by (elim exE conjE) (rule_tac x = k in exI, rule_tac x = "cs @ [s]" in exI, simp)

lemma butlast_replicate_same: "butlast (replicate k x) = replicate (k - 1) x"
proof (induction k)
  case 0
  then show ?case by simp
next
  case (Suc k)
  then show ?case by (cases k) simp_all
qed

lemma normalForm_butlast: "normalForm allow xs \<Longrightarrow> normalForm allow (butlast xs)"
  unfolding normalForm_def
proof (elim exE conjE)
  fix k cs
  assume xs: "xs = replicate k ''..'' @ cs" and cs: "\<forall>s \<in> set cs. cleanSegment s"
    and k: "\<not> allow \<longrightarrow> k = 0"
  show "\<exists>k cs. butlast xs = replicate k ''..'' @ cs \<and> (\<forall>s \<in> set cs. cleanSegment s) \<and> (\<not> allow \<longrightarrow> k = 0)"
  proof (cases "cs = []")
    case True
    with xs k have "butlast xs = replicate (k - 1) ''..'' @ [] \<and> (\<not> allow \<longrightarrow> k - 1 = 0)"
      by (simp add: butlast_replicate_same)
    then show ?thesis by (metis empty_iff list.set(1))
  next
    case False
    with xs have "butlast xs = replicate k ''..'' @ butlast cs"
      by (simp add: butlast_append)
    moreover have "\<forall>s \<in> set (butlast cs). cleanSegment s"
      using cs by (auto dest: in_set_butlastD)
    ultimately show ?thesis using k by blast
  qed
qed

lemma normalForm_dots_snoc:
  assumes "normalForm True xs" and "xs = [] \<or> last xs = ''..''"
  shows "normalForm True (xs @ [''..''])"
proof -
  from assms(1) obtain k cs where xs: "xs = replicate k ''..'' @ cs"
    and cs: "\<forall>s \<in> set cs. cleanSegment s"
    by (auto simp: normalForm_def)
  have "cs = []"
  proof (rule ccontr)
    assume ne: "cs \<noteq> []"
    with xs have "last xs = last cs" by simp
    moreover from ne cs have "cleanSegment (last cs)" by simp
    ultimately show False
      using assms(2) xs ne by (auto simp: cleanSegment_def)
  qed
  with xs have "xs @ [''..''] = replicate (Suc k) ''..'' @ []"
    by (simp add: replicate_append_same)
  then show ?thesis
    unfolding normalForm_def by (metis empty_iff list.set(1))
qed

lemma normSegs_normalForm:
  "normalForm allow (rev st) \<Longrightarrow> normalForm allow (normSegs allow st xs)"
proof (induction xs arbitrary: st)
  case Nil
  then show ?case by simp
next
  case (Cons s xs)
  show ?case
  proof (cases "s = [] \<or> s = ''.''")
    case True
    with Cons show ?thesis by auto
  next
    case skip: False
    show ?thesis
    proof (cases "s = ''..''")
      case False
      with skip have "cleanSegment s" by (simp add: cleanSegment_def)
      with Cons.prems have "normalForm allow (rev (s # st))"
        by (simp add: normalForm_snoc)
      from Cons.IH [OF this] skip False show ?thesis by simp
    next
      case dd: True
      show ?thesis
      proof (cases st)
        case Nil
        show ?thesis
        proof (cases allow)
          case True
          have "normalForm True (rev [''..''])"
            using normalForm_dots_snoc [of "[]"] by (simp add: normalForm_def)
          from Cons.IH [of "[''..'']"] this True dd Nil show ?thesis by simp
        next
          case False
          from Cons.IH [of "[]"] Cons.prems False dd Nil show ?thesis by simp
        qed
      next
        case (Cons t ts)
        show ?thesis
        proof (cases "t = ''..''")
          case True
          show ?thesis
          proof (cases allow)
            case allow: True
            have "normalForm True (rev st @ [''..''])"
              using normalForm_dots_snoc [of "rev st"] Cons.prems Cons True allow
              by simp
            then have "normalForm allow (rev (''..'' # st))"
              using allow by simp
            from Cons.IH [OF this] dd Cons True allow show ?thesis by simp
          next
            case False
            from Cons.IH [OF Cons.prems] dd Cons True False show ?thesis by simp
          qed
        next
          case False
          have "normalForm allow (butlast (rev st))"
            using Cons.prems by (rule normalForm_butlast)
          then have "normalForm allow (rev ts)"
            using Cons by (simp add: butlast_append)
          from Cons.IH [OF this] dd Cons False show ?thesis by simp
        qed
      qed
    qed
  qed
qed

lemma normalForm_Nil [simp]: "normalForm allow []"
  unfolding normalForm_def by (rule exI [of _ 0]) simp

lemma normSegs_idem: "normSegs allow [] (normSegs allow [] xs) = normSegs allow [] xs"
  by (rule normSegs_normalForm_id) (simp add: normSegs_normalForm)

lemma set_normSegs: "set (normSegs allow st xs) \<subseteq> set st \<union> set xs"
proof (induction xs arbitrary: st)
  case Nil
  show ?case by simp
next
  case (Cons s xs)
  have step: "set (normSegs allow st' xs) \<subseteq> set st \<union> set (s # xs)"
    if "set st' \<subseteq> set (s # st)" for st'
    using Cons [of st'] that by auto
  show ?case
  proof (cases "s = [] \<or> s = ''.''")
    case True
    with step [of st] show ?thesis by auto
  next
    case skip: False
    show ?thesis
    proof (cases "s = ''..''")
      case False
      with skip step [of "s # st"] show ?thesis by simp
    next
      case dd: True
      show ?thesis
      proof (cases st)
        case Nil
        with dd step [of "[]"] step [of "[s]"] show ?thesis
          by (cases allow) simp_all
      next
        case (Cons t ts)
        show ?thesis
        proof (cases "t = ''..''")
          case True
          with dd Cons step [of st] step [of "s # st"] show ?thesis
            by (cases allow) simp_all
        next
          case False
          with dd Cons step [of ts] show ?thesis by auto
        qed
      qed
    qed
  qed
qed

lemma normSegs_stack:
  "\<exists>k zs. normSegs allow st xs = rev (drop k st) @ zs \<and> set zs \<subseteq> set xs"
proof (induction xs arbitrary: st)
  case Nil
  show ?case by (rule exI [of _ 0]) simp
next
  case (Cons s xs)
  have keep: "\<exists>k zs. normSegs allow st' xs = rev (drop k st) @ zs \<and> set zs \<subseteq> set (s # xs)"
    if "st' = st \<or> st' = s # st \<or> (\<exists>t. st = t # st')" for st'
  proof -
    from Cons [of st'] obtain k zs where r: "normSegs allow st' xs = rev (drop k st') @ zs"
      and z: "set zs \<subseteq> set xs"
      by blast
    from that consider "st' = st" | "st' = s # st" | t where "st = t # st'"
      by blast
    then show ?thesis
    proof cases
      case 1
      with r z show ?thesis by (intro exI [of _ k] exI [of _ zs]) auto
    next
      case 2
      show ?thesis
      proof (cases k)
        case 0
        with r z 2 show ?thesis
          by (intro exI [of _ 0] exI [of _ "s # zs"]) auto
      next
        case (Suc j)
        with r z 2 show ?thesis
          by (intro exI [of _ j] exI [of _ zs]) auto
      qed
    next
      case 3
      with r z show ?thesis
        by (intro exI [of _ "Suc k"] exI [of _ zs]) auto
    qed
  qed
  show ?case
  proof (cases "s = [] \<or> s = ''.''")
    case True
    with keep [of st] show ?thesis by auto
  next
    case skip: False
    show ?thesis
    proof (cases "s = ''..''")
      case False
      with skip keep [of "s # st"] show ?thesis by simp
    next
      case dd: True
      show ?thesis
      proof (cases st)
        case Nil
        with dd keep [of "[]"] keep [of "[s]"] show ?thesis
          by (cases allow) simp_all
      next
        case (Cons t ts)
        show ?thesis
        proof (cases "t = ''..''")
          case True
          with dd Cons keep [of st] keep [of "s # st"] show ?thesis
            by (cases allow) simp_all
        next
          case False
          with dd Cons keep [of ts] show ?thesis by simp
        qed
      qed
    qed
  qed
qed

subsection \<open>The paths that normalize returns\<close>

lemma normSegs_append:
  "normSegs allow st (xs @ ys) = normSegs allow (rev (normSegs allow st xs)) ys"
  by (induction xs arbitrary: st) (auto split: list.splits)

lemma normSegs_snoc_empty [simp]: "normSegs allow st (xs @ [[]]) = normSegs allow st xs"
  by (simp add: normSegs_append)

lemma normSegs_slashFree:
  "slashFree st \<Longrightarrow> slashFree xs \<Longrightarrow> slashFree (normSegs allow st xs)"
  using set_normSegs [of allow st xs] unfolding slashFree_def by blast

lemma slashFree_splitSlash [simp]: "slashFree (splitSlash p)"
  by (simp add: slashFree_def splitSlash_no_slash)

lemma slashFree_Nil [simp]: "slashFree []"
  by (simp add: slashFree_def)

lemma normalForm_nonempty_segments:
  assumes "normalForm allow xs" and "s \<in> set xs"
  shows "s \<noteq> []"
proof -
  from assms(1) obtain k cs where xs: "xs = replicate k ''..'' @ cs"
    and cs: "\<forall>s \<in> set cs. cleanSegment s"
    unfolding normalForm_def by blast
  from assms(2) xs have "s = ''..'' \<or> s \<in> set cs"
    by auto
  with cs show ?thesis
    by (auto simp: cleanSegment_def)
qed

lemma normalForm_False_clean: "normalForm False xs \<longleftrightarrow> (\<forall>s \<in> set xs. cleanSegment s)"
proof
  assume "normalForm False xs"
  then obtain k cs where "xs = replicate k ''..'' @ cs" and "\<forall>s \<in> set cs. cleanSegment s"
    and "k = 0"
    unfolding normalForm_def by blast
  then show "\<forall>s \<in> set xs. cleanSegment s"
    by simp
next
  assume "\<forall>s \<in> set xs. cleanSegment s"
  then have "xs = replicate 0 ''..'' @ xs \<and> (\<forall>s \<in> set xs. cleanSegment s) \<and> (\<not> False \<longrightarrow> (0::nat) = 0)"
    by simp
  then show "normalForm False xs"
    unfolding normalForm_def by blast
qed

lemma normalForm_weaken: "normalForm False xs \<Longrightarrow> normalForm allow xs"
proof -
  assume "normalForm False xs"
  then have "xs = replicate 0 ''..'' @ xs \<and> (\<forall>s \<in> set xs. cleanSegment s) \<and> (\<not> allow \<longrightarrow> (0::nat) = 0)"
    by (simp add: normalForm_False_clean)
  then show ?thesis
    unfolding normalForm_def by blast
qed

lemma joinSlash_first:
  assumes "xs \<noteq> []" and "slashFree xs" and "\<forall>s \<in> set xs. s \<noteq> []"
  shows "joinSlash xs \<noteq> [] \<and> hd (joinSlash xs) \<noteq> CHR ''/'' \<and> last (joinSlash xs) \<noteq> CHR ''/''"
  using assms
proof (induction xs rule: joinSlash.induct)
  case 1
  then show ?case by simp
next
  case (2 s)
  then obtain c cs where s: "s = c # cs" and c: "c \<noteq> CHR ''/''" and cs: "CHR ''/'' \<notin> set cs"
    by (cases s) (auto simp: slashFree_def)
  have "last (c # cs) \<in> set (c # cs)"
    by (rule last_in_set) simp
  with c cs have "last (c # cs) \<noteq> CHR ''/''"
    by auto
  with s c show ?case
    by simp
next
  case (3 s t ss)
  from 3 have tl: "joinSlash (t # ss) \<noteq> [] \<and> last (joinSlash (t # ss)) \<noteq> CHR ''/''"
    by (simp add: slashFree_def)
  from 3 obtain c cs where s: "s = c # cs" and c: "c \<noteq> CHR ''/''"
    by (cases s) (auto simp: slashFree_def)
  from tl s c show ?case
    by simp
qed

lemma normalize_pathOf:
  "x \<noteq> [] \<Longrightarrow>
     normalize x = pathOf (isAbsolute x) (normSegs (\<not> isAbsolute x) [] (splitSlash x))
                     (last x = CHR ''/'')"
proof -
  assume "x \<noteq> []"
  let ?nf = "normSegs (\<not> isAbsolute x) [] (splitSlash x)"
  have nf: "normalForm (\<not> isAbsolute x) ?nf"
    by (rule normSegs_normalForm) simp
  have "joinSlash ?nf = [] \<longleftrightarrow> ?nf = []"
    by (rule joinSlash_eq_Nil) (use nf normalForm_nonempty_segments in blast)
  with \<open>x \<noteq> []\<close> show ?thesis
    by (simp add: normalize_def normalizeString_def pathOf_def Let_def)
qed

lemma splitSlash_slash_Cons: "splitSlash (CHR ''/'' # p) = [] # splitSlash p"
  by simp

lemma splitSlash_snoc_slash: "splitSlash (p @ ''/'') = splitSlash p @ [[]]"
  using splitSlash_append [of p "[]"] by simp

lemma pathOf_facts:
  assumes "normalForm (\<not> a) nf" and "slashFree nf"
  shows "pathOf a nf t \<noteq> []"
    and "isAbsolute (pathOf a nf t) = a"
    and "(last (pathOf a nf t) = CHR ''/'') = (t \<or> (a \<and> nf = []))"
    and "normSegs (\<not> a) [] (splitSlash (pathOf a nf t)) = nf"
proof -
  have ne: "\<forall>s \<in> set nf. s \<noteq> []"
    using assms(1) normalForm_nonempty_segments by blast
  have jn: "joinSlash nf = [] \<longleftrightarrow> nf = []"
    using ne by (rule joinSlash_eq_Nil)
  show "pathOf a nf t \<noteq> []"
    using jn by (simp add: pathOf_def)
  show "isAbsolute (pathOf a nf t) = a"
  proof (cases "nf = []")
    case True
    then show ?thesis by (simp add: pathOf_def isAbsolute_def)
  next
    case False
    from joinSlash_first [OF False assms(2) ne]
    obtain c cs where j: "joinSlash nf = c # cs" and c: "c \<noteq> CHR ''/''"
      by (cases "joinSlash nf") auto
    with False show ?thesis
      by (simp add: pathOf_def isAbsolute_def)
  qed
  show "(last (pathOf a nf t) = CHR ''/'') = (t \<or> (a \<and> nf = []))"
  proof (cases "nf = []")
    case True
    then show ?thesis by (simp add: pathOf_def)
  next
    case False
    from joinSlash_first [OF False assms(2) ne]
    have "joinSlash nf \<noteq> []" and "last (joinSlash nf) \<noteq> CHR ''/''"
      by simp_all
    with False show ?thesis
      by (simp add: pathOf_def)
  qed
  show "normSegs (\<not> a) [] (splitSlash (pathOf a nf t)) = nf"
  proof (cases "nf = []")
    case True
    then show ?thesis by (simp add: pathOf_def)
  next
    case False
    have sj: "splitSlash (joinSlash nf) = nf"
      using False assms(2) by (intro splitSlash_joinSlash) (auto simp: slashFree_def)
    have id: "normSegs (\<not> a) [] nf = nf"
      using assms(1) by (rule normSegs_normalForm_id)
    have "splitSlash (joinSlash nf @ ''/'') = nf @ [[]]"
      using splitSlash_snoc_slash [of "joinSlash nf"] sj by simp
    with False sj id show ?thesis
      by (cases a) (simp_all add: pathOf_def)
  qed
qed

lemma pathOf_trailing_root: "pathOf True [] t = ''/''"
  by (simp add: pathOf_def)

lemma normalize_of_pathOf:
  assumes "normalForm (\<not> a) nf" and "slashFree nf"
  shows "normalize (pathOf a nf t) = pathOf a nf t"
proof -
  note f = pathOf_facts [OF assms, of t]
  have "normalize (pathOf a nf t) = pathOf a nf (t \<or> (a \<and> nf = []))"
    using normalize_pathOf [OF f(1)] f(2,3,4) by simp
  also have "\<dots> = pathOf a nf t"
    by (simp add: pathOf_def)
  finally show ?thesis .
qed

lemma normalize_shape:
  "\<exists>nf t. normalize x = pathOf (isAbsolute x) nf t \<and> normalForm (\<not> isAbsolute x) nf \<and> slashFree nf
     \<and> set nf \<subseteq> set (splitSlash x)"
proof (cases "x = []")
  case True
  have "normalize [] = pathOf False [] False"
    by (simp add: normalize_def pathOf_def)
  with True show ?thesis
    by (intro exI [of _ "[]"] exI [of _ False]) (simp add: isAbsolute_def)
next
  case False
  let ?nf = "normSegs (\<not> isAbsolute x) [] (splitSlash x)"
  have "normalForm (\<not> isAbsolute x) ?nf"
    by (rule normSegs_normalForm) simp
  moreover have "slashFree ?nf"
    by (rule normSegs_slashFree) simp_all
  moreover have "set ?nf \<subseteq> set (splitSlash x)"
    using set_normSegs [of "\<not> isAbsolute x" "[]" "splitSlash x"] by simp
  ultimately show ?thesis
    using normalize_pathOf [OF False] by blast
qed

lemma normalize_idem: "normalize (normalize x) = normalize x"
proof -
  from normalize_shape [of x] obtain nf t where
    n: "normalize x = pathOf (isAbsolute x) nf t" and nf: "normalForm (\<not> isAbsolute x) nf"
    and sf: "slashFree nf"
    by blast
  show ?thesis
    unfolding n by (rule normalize_of_pathOf [OF nf sf])
qed

lemma normalize_nonempty [simp]: "normalize x \<noteq> []"
proof -
  from normalize_shape [of x] obtain nf t where
    n: "normalize x = pathOf (isAbsolute x) nf t" and nf: "normalForm (\<not> isAbsolute x) nf"
    and sf: "slashFree nf"
    by blast
  show ?thesis
    unfolding n by (rule pathOf_facts(1) [OF nf sf])
qed

lemma isAbsolute_normalize [simp]: "isAbsolute (normalize x) = isAbsolute x"
proof -
  from normalize_shape [of x] obtain nf t where
    n: "normalize x = pathOf (isAbsolute x) nf t" and nf: "normalForm (\<not> isAbsolute x) nf"
    and sf: "slashFree nf"
    by blast
  show ?thesis
    unfolding n by (rule pathOf_facts(2) [OF nf sf])
qed

lemma set_pathOf: "set (pathOf a nf t) \<subseteq> {CHR ''/'', CHR ''.''} \<union> \<Union> (set ` set nf)"
proof -
  have j: "set (joinSlash nf) \<subseteq> insert (CHR ''/'') (\<Union> (set ` set nf))"
    by (rule set_joinSlash)
  show ?thesis
  proof (cases "nf = []")
    case True
    then show ?thesis by (simp add: pathOf_def)
  next
    case False
    then have "set (pathOf a nf t) \<subseteq> {CHR ''/''} \<union> set (joinSlash nf)"
      by (cases a; cases t) (auto simp: pathOf_def)
    with j show ?thesis by blast
  qed
qed

lemma set_normalize: "set (normalize x) \<subseteq> {CHR ''/'', CHR ''.''} \<union> set x"
proof -
  from normalize_shape [of x] obtain nf t where
    n: "normalize x = pathOf (isAbsolute x) nf t" and sub: "set nf \<subseteq> set (splitSlash x)"
    by blast
  have b: "\<Union> (set ` set nf) \<subseteq> set x"
    using sub set_splitSlash [of _ x] by blast
  have a: "set (normalize x) \<subseteq> {CHR ''/'', CHR ''.''} \<union> \<Union> (set ` set nf)"
    unfolding n by (rule set_pathOf)
  from a b show ?thesis
    by blast
qed

subsection \<open>Resolving absolute and relative paths\<close>

lemma cleanList_Nil [simp]: "cleanList []"
  by (simp add: cleanList_def)

lemma cleanList_append [simp]: "cleanList (xs @ ys) \<longleftrightarrow> cleanList xs \<and> cleanList ys"
  by (auto simp: cleanList_def slashFree_def)

lemma cleanList_rev [simp]: "cleanList (rev xs) \<longleftrightarrow> cleanList xs"
  by (auto simp: cleanList_def slashFree_def)

lemma cleanList_normalForm: "cleanList xs \<Longrightarrow> normalForm allow xs"
  by (rule normalForm_weaken) (simp add: normalForm_False_clean cleanList_def)

lemma cleanList_nonempty_segments: "cleanList xs \<Longrightarrow> \<forall>s \<in> set xs. s \<noteq> []"
  by (auto simp: cleanList_def cleanSegment_def)

lemma cleanList_normSegs:
  assumes "cleanList st" and "slashFree xs"
  shows "cleanList (normSegs False st xs)"
proof -
  have "normalForm False (rev st)"
    using assms(1) by (simp add: normalForm_False_clean cleanList_def)
  then have "normalForm False (normSegs False st xs)"
    by (rule normSegs_normalForm)
  moreover have "slashFree (normSegs False st xs)"
    using assms by (intro normSegs_slashFree) (simp_all add: cleanList_def)
  ultimately show ?thesis
    by (simp add: cleanList_def normalForm_False_clean)
qed

lemma cleanList_absSegs [simp]: "cleanList (absSegs p)"
  unfolding absSegs_def by (rule cleanList_normSegs) simp_all

lemma normSegs_cleanList: "cleanList cs \<Longrightarrow> normSegs allow st cs = rev st @ cs"
  by (rule normSegs_clean_all) (simp add: cleanList_def)

lemma splitSlash_absPath:
  "cleanList F \<Longrightarrow> normSegs allow st (splitSlash (CHR ''/'' # joinSlash F)) = rev st @ F"
proof (cases "F = []")
  case True
  then show ?thesis by simp
next
  case False
  assume c: "cleanList F"
  then have "splitSlash (joinSlash F) = F"
    using False by (intro splitSlash_joinSlash) (auto simp: cleanList_def slashFree_def)
  with c show ?thesis
    by (simp add: normSegs_cleanList)
qed

lemma absSegs_absPath: "cleanList F \<Longrightarrow> absSegs (CHR ''/'' # joinSlash F) = F"
  unfolding absSegs_def using splitSlash_absPath [of F False "[]"] by simp

lemma absSegs_snoc_slash: "normSegs False [] (splitSlash (p @ ''/'')) = absSegs p"
  by (simp add: absSegs_def splitSlash_snoc_slash)

lemma isAbsolute_Cons: "isAbsolute (c # cs) = (c = CHR ''/'')"
  by (simp add: isAbsolute_def)

lemma isAbsolute_nonempty: "isAbsolute p \<Longrightarrow> p \<noteq> []"
  by (auto simp: isAbsolute_def)

lemma resolve_absolute:
  assumes "isAbsolute p"
  shows "resolve cwd (args @ [p]) = CHR ''/'' # joinSlash (absSegs p)"
proof -
  have "resolveAcc (rev (args @ [p]) @ [cwd]) [] = (p @ ''/'', True)"
    using assms isAbsolute_nonempty [OF assms] by simp
  then show ?thesis
    by (simp add: resolve_def normalizeString_def absSegs_snoc_slash)
qed

lemma resolve_relative:
  assumes "isAbsolute base" and "\<not> isAbsolute p"
  shows "resolve cwd (args @ [base, p])
     = CHR ''/'' # joinSlash (normSegs False (rev (absSegs base)) (splitSlash p))"
proof (cases "p = []")
  case True
  have "resolveAcc (rev (args @ [base, p]) @ [cwd]) [] = (base @ ''/'', True)"
    using assms True isAbsolute_nonempty [OF assms(1)] by simp
  then show ?thesis
    using True by (simp add: resolve_def normalizeString_def absSegs_snoc_slash)
next
  case False
  have "resolveAcc (rev (args @ [base, p]) @ [cwd]) [] = (base @ ''/'' @ p @ ''/'', True)"
    using assms False isAbsolute_nonempty [OF assms(1)] by simp
  moreover have "splitSlash (base @ ''/'' @ p @ ''/'') = splitSlash base @ splitSlash p @ [[]]"
    using splitSlash_append [of base "p @ ''/''"] splitSlash_snoc_slash [of p] by simp
  ultimately show ?thesis
    by (simp add: resolve_def normalizeString_def absSegs_def normSegs_append)
qed

lemma resolve_relative_cwd:
  assumes "isAbsolute cwd" and "\<not> isAbsolute p"
  shows "resolve cwd [p] = CHR ''/'' # joinSlash (normSegs False (rev (absSegs cwd)) (splitSlash p))"
proof (cases "p = []")
  case True
  have "resolveAcc (rev [p] @ [cwd]) [] = (cwd @ ''/'', True)"
    using assms True isAbsolute_nonempty [OF assms(1)] by simp
  then show ?thesis
    using True by (simp add: resolve_def normalizeString_def absSegs_snoc_slash)
next
  case False
  have "resolveAcc (rev [p] @ [cwd]) [] = (cwd @ ''/'' @ p @ ''/'', True)"
    using assms False isAbsolute_nonempty [OF assms(1)] by simp
  moreover have "splitSlash (cwd @ ''/'' @ p @ ''/'') = splitSlash cwd @ splitSlash p @ [[]]"
    using splitSlash_append [of cwd "p @ ''/''"] splitSlash_snoc_slash [of p] by simp
  ultimately show ?thesis
    by (simp add: resolve_def normalizeString_def absSegs_def normSegs_append)
qed

lemma resolve_shape:
  assumes "isAbsolute cwd"
  shows "\<exists>F. resolve cwd [p] = CHR ''/'' # joinSlash F \<and> cleanList F"
proof (cases "isAbsolute p")
  case True
  from resolve_absolute [OF True, of cwd "[]"] show ?thesis
    by (intro exI [of _ "absSegs p"]) simp
next
  case False
  from resolve_relative_cwd [OF assms False] show ?thesis
    by (intro exI [of _ "normSegs False (rev (absSegs cwd)) (splitSlash p)"])
      (simp add: cleanList_normSegs)
qed

lemma joinSlash_inject:
  assumes "cleanList xs" and "cleanList ys" and "joinSlash xs = joinSlash ys"
  shows "xs = ys"
proof -
  have jx: "joinSlash xs = [] \<longleftrightarrow> xs = []"
    by (rule joinSlash_eq_Nil [OF cleanList_nonempty_segments [OF assms(1)]])
  have jy: "joinSlash ys = [] \<longleftrightarrow> ys = []"
    by (rule joinSlash_eq_Nil [OF cleanList_nonempty_segments [OF assms(2)]])
  show ?thesis
  proof (cases "xs = []")
    case True
    with jx have "joinSlash xs = []" by blast
    then have "joinSlash ys = []" unfolding assms(3) .
    with jy have "ys = []" by blast
    with True show ?thesis by simp
  next
    case False
    with jx have "joinSlash xs \<noteq> []" by blast
    then have "joinSlash ys \<noteq> []" unfolding assms(3) .
    with jy have ys: "ys \<noteq> []" by blast
    have sx: "splitSlash (joinSlash xs) = xs"
      using False assms(1) by (intro splitSlash_joinSlash) (auto simp: cleanList_def slashFree_def)
    have sy: "splitSlash (joinSlash ys) = ys"
      using ys assms(2) by (intro splitSlash_joinSlash) (auto simp: cleanList_def slashFree_def)
    have "splitSlash (joinSlash xs) = splitSlash (joinSlash ys)"
      by (rule arg_cong [OF assms(3)])
    then show ?thesis
      unfolding sx sy .
  qed
qed

lemma startsWith_append: "startsWith s p \<longleftrightarrow> (\<exists>rest. s = p @ rest)"
proof
  assume "startsWith s p"
  then have "s = p @ drop (length p) s"
    unfolding startsWith_def using append_take_drop_id [of "length p" s] by simp
  then show "\<exists>rest. s = p @ rest" ..
next
  assume "\<exists>rest. s = p @ rest"
  then show "startsWith s p"
    by (auto simp: startsWith_def)
qed

lemma within_segments:
  assumes "cleanList R" and "cleanList F"
    and "startsWith (CHR ''/'' # joinSlash F) ((CHR ''/'' # joinSlash R) @ sep)"
  shows "R \<noteq> [] \<and> (\<exists>ys. ys \<noteq> [] \<and> F = R @ ys)"
proof -
  from assms(3) obtain rest where eq: "joinSlash F = joinSlash R @ CHR ''/'' # rest"
    by (auto simp: startsWith_append sep_def)
  have neF: "\<forall>s \<in> set F. s \<noteq> []" and sfF: "slashFree F"
    using assms(2) by (auto simp: cleanList_def cleanSegment_def)
  have F: "F \<noteq> []"
    using eq by auto
  have R: "R \<noteq> []"
  proof
    assume "R = []"
    with eq have "hd (joinSlash F) = CHR ''/''" by simp
    with joinSlash_first [OF F sfF neF] show False by simp
  qed
  have "splitSlash (joinSlash F) = F"
    using F sfF by (intro splitSlash_joinSlash) (auto simp: slashFree_def)
  moreover have "splitSlash (joinSlash R) = R"
    using R assms(1) by (intro splitSlash_joinSlash) (auto simp: cleanList_def slashFree_def)
  ultimately have "F = R @ splitSlash rest"
    using eq splitSlash_append [of "joinSlash R" rest] by simp
  with R show ?thesis
    by (intro conjI exI [of _ "splitSlash rest"]) simp_all
qed

lemma dropCommon_prefix: "dropCommon R (R @ ys) = ([], ys)"
  by (induction R) simp_all

lemma pathSegments_absPath: "cleanList F \<Longrightarrow> pathSegments (CHR ''/'' # joinSlash F) = F"
proof (cases "F = []")
  case True
  then show ?thesis by (simp add: pathSegments_def)
next
  case False
  assume c: "cleanList F"
  then have "splitSlash (joinSlash F) = F"
    using False by (intro splitSlash_joinSlash) (auto simp: cleanList_def slashFree_def)
  moreover have "filter (\<lambda>s. s \<noteq> []) F = F"
    using cleanList_nonempty_segments [OF c] by (simp add: filter_id_conv)
  ultimately show ?thesis
    by (simp add: pathSegments_def)
qed

lemma resolve_absPath: "cleanList F \<Longrightarrow> resolve cwd [CHR ''/'' # joinSlash F] = CHR ''/'' # joinSlash F"
  using resolve_absolute [of "CHR ''/'' # joinSlash F" cwd "[]"]
  by (simp add: isAbsolute_Cons absSegs_absPath)

lemma relative_below:
  assumes "cleanList R" and "cleanList ys" and "ys \<noteq> []"
  shows "relative cwd (CHR ''/'' # joinSlash R) (CHR ''/'' # joinSlash (R @ ys)) = joinSlash ys"
proof -
  have RF: "cleanList (R @ ys)"
    using assms by simp
  have ne: "joinSlash R \<noteq> joinSlash (R @ ys)"
    using joinSlash_inject [OF assms(1) RF] assms(3) by auto
  show ?thesis
    using ne assms
    by (simp add: relative_def resolve_absPath RF pathSegments_absPath dropCommon_prefix
        del: cleanList_append)
qed

subsection \<open>The outcome of sanitizePath in closed form\<close>

lemma effectiveOptions_simps:
  "(toPosix (effectiveOptions cwd options) = Some True) = (toPosix options = Some True)"
  "(allowAbsolute (effectiveOptions cwd options) = Some True) = (allowAbsolute options = Some True)"
  "rootDir (effectiveOptions cwd options) =
     (if truthy (rootDir options) then Some (resolve cwd [the (rootDir options)]) else None)"
  by (cases "toPosix options"; cases "allowAbsolute options"; cases "rootDir options";
      simp add: effectiveOptions_def truthy_def)+

lemma sanitized_with_root:
  assumes "input \<noteq> []" and "CHR 0x00 \<notin> set input" and "truthy (rootDir options)"
  shows "sanitized cwd input options =
     (let root = resolve cwd [the (rootDir options)];
          fullPath = resolve cwd [root, converted options input]
      in if \<not> startsWith fullPath (root @ sep) \<and> fullPath \<noteq> root then
           Inl (McpError VALIDATION_ERROR
                 ''Path traversal detected: attempts to escape the defined root directory.'')
         else Inr (if relative cwd root fullPath = [] then ''.'' else relative cwd root fullPath))"
proof -
  have dot: "\<not> isAbsolute ''.''"
    by (simp add: isAbsolute_def)
  show ?thesis
    using assms dot relative_not_absolute [of cwd]
    by (simp add: sanitized_def sanitizePath_def Let_def effectiveOptions_simps converted_def
        validationError_def)
qed

lemma sanitized_without_root:
  assumes "input \<noteq> []" and "CHR 0x00 \<notin> set input" and "\<not> truthy (rootDir options)"
  shows "sanitized cwd input options =
     (let n = converted options input
      in if isAbsolute n then
           Inr (if allowAbsolute options = Some True then n else stripRootMarker n)
         else if \<not> withinCwd cwd n then
           Inl (McpError VALIDATION_ERROR
                 ''Relative path traversal detected (escapes current working directory context).'')
         else Inr n)"
  using assms
  by (simp add: sanitized_def sanitizePath_def Let_def effectiveOptions_simps converted_def
      validationError_def withinCwd_def)

lemma sanitized_Inr:
  "sanitizePath cwd x opts = Inr info \<Longrightarrow> sanitized cwd x opts = Inr (sanitizedPath info)"
  by (simp add: sanitized_def)

lemma sanitized_InrD:
  "sanitized cwd x opts = Inr p \<Longrightarrow> \<exists>info. sanitizePath cwd x opts = Inr info \<and> sanitizedPath info = p"
  by (cases "sanitizePath cwd x opts") (auto simp: sanitized_def)

lemma sanitizePath_Inr_valid:
  "sanitizePath cwd x opts = Inr info \<Longrightarrow> x \<noteq> [] \<and> CHR 0x00 \<notin> set x"
  by (auto simp: sanitizePath_def Let_def validationError_def split: if_splits)

lemma set_backslashesToSlashes:
  "set (backslashesToSlashes s) \<subseteq> insert (CHR ''/'') (set s - {CHR 0x5C})"
  by (auto simp: backslashesToSlashes_def)

lemma backslashesToSlashes_id: "CHR 0x5C \<notin> set s \<Longrightarrow> backslashesToSlashes s = s"
  unfolding backslashesToSlashes_def by (induction s) auto

lemma set_converted: "set (converted opts x) \<subseteq> {CHR ''/'', CHR ''.''} \<union> set x"
proof (cases "toPosix opts = Some True")
  case True
  have "set (backslashesToSlashes (normalize x)) \<subseteq> insert (CHR ''/'') (set (normalize x))"
    using set_backslashesToSlashes [of "normalize x"] by blast
  with set_normalize [of x] True show ?thesis
    by (auto simp: converted_def)
next
  case False
  with set_normalize [of x] show ?thesis
    by (simp add: converted_def)
qed

lemma converted_no_backslash:
  "toPosix opts = Some True \<Longrightarrow> CHR 0x5C \<notin> set (converted opts x)"
  using set_backslashesToSlashes [of "normalize x"] by (auto simp: converted_def)

lemma converted_fixed:
  assumes "normalize y = y" and "toPosix opts = Some True \<longrightarrow> CHR 0x5C \<notin> set y"
  shows "converted opts y = y"
  using assms by (simp add: converted_def backslashesToSlashes_id)

lemma converted_nonempty [simp]: "converted opts x \<noteq> []"
  by (simp add: converted_def backslashesToSlashes_def)

lemma normalize_dot: "normalize ''.'' = ''.''"
  by code_simp

lemma normalize_joinSlash:
  assumes "cleanList ys" and "ys \<noteq> []"
  shows "normalize (joinSlash ys) = joinSlash ys"
proof -
  have nf: "normalForm (\<not> False) ys"
    using assms(1) by (rule cleanList_normalForm)
  have sf: "slashFree ys"
    using assms(1) by (simp add: cleanList_def)
  have "pathOf False ys False = joinSlash ys"
    using assms(2) by (simp add: pathOf_def)
  with normalize_of_pathOf [OF nf sf, of False] show ?thesis
    by simp
qed

lemma set_joinSlash_segments:
  assumes "\<forall>s \<in> set ys. set s \<subseteq> A"
  shows "set (joinSlash ys) \<subseteq> insert (CHR ''/'') A"
  using set_joinSlash [of ys] assms by blast

lemma suffix_of_stack:
  assumes "normSegs allow st xs = R @ ys" and "st = [] \<or> st = rev R"
  shows "set ys \<subseteq> set xs"
proof -
  from normSegs_stack [of allow st xs] obtain k zs where
    r: "normSegs allow st xs = rev (drop k st) @ zs" and z: "set zs \<subseteq> set xs"
    by blast
  from assms(2) show ?thesis
  proof
    assume "st = []"
    with r assms(1) have "zs = R @ ys" by simp
    with z show ?thesis by auto
  next
    assume st: "st = rev R"
    have "rev (drop k (rev R)) = take (length R - k) R"
      by (simp add: rev_drop)
    with r st assms(1) have e: "R @ ys = take (length R - k) R @ zs"
      by simp
    have "R = take (length R - k) R @ drop (length R - k) R"
      by simp
    then have "take (length R - k) R @ (drop (length R - k) R @ ys) = take (length R - k) R @ zs"
      using e by (metis append.assoc)
    then have "zs = drop (length R - k) R @ ys"
      by simp
    with z show ?thesis by auto
  qed
qed

subsection \<open>Sanitizing a sanitized path\<close>

lemma idem_with_root:
  assumes cwd: "isAbsolute cwd" and x: "x \<noteq> []" "CHR 0x00 \<notin> set x"
    and rd: "truthy (rootDir opts)" and ok: "sanitized cwd x opts = Inr y"
  shows "sanitized cwd y opts = Inr y"
proof -
  define root where "root = resolve cwd [the (rootDir opts)]"
  define n where "n = converted opts x"
  define full where "full = resolve cwd [root, n]"
  from resolve_shape [OF cwd, of "the (rootDir opts)"] obtain R where
    R: "root = CHR ''/'' # joinSlash R" and cR: "cleanList R"
    unfolding root_def by blast
  have absroot: "isAbsolute root"
    by (simp add: R isAbsolute_Cons)
  have segsroot: "absSegs root = R"
    unfolding R by (rule absSegs_absPath [OF cR])
  define st0 where "st0 = (if isAbsolute n then [] else rev R)"
  define F where "F = normSegs False st0 (splitSlash n)"
  have full: "full = CHR ''/'' # joinSlash F"
  proof (cases "isAbsolute n")
    case True
    from resolve_absolute [OF True, of cwd "[root]"] True show ?thesis
      by (simp add: full_def F_def st0_def absSegs_def)
  next
    case False
    from resolve_relative [OF absroot False, of cwd "[]"] False show ?thesis
      by (simp add: full_def F_def st0_def segsroot)
  qed
  have cst: "cleanList st0"
    using cR by (simp add: st0_def)
  have cF: "cleanList F"
    unfolding F_def by (rule cleanList_normSegs [OF cst]) simp
  have form: "sanitized cwd x opts =
     (if \<not> startsWith full (root @ sep) \<and> full \<noteq> root then
        Inl (McpError VALIDATION_ERROR
              ''Path traversal detected: attempts to escape the defined root directory.'')
      else Inr (if relative cwd root full = [] then ''.'' else relative cwd root full))"
    using sanitized_with_root [OF x rd, of cwd]
    by (simp add: Let_def root_def n_def full_def)
  from ok form have within: "startsWith full (root @ sep) \<or> full = root"
    and y: "y = (if relative cwd root full = [] then ''.'' else relative cwd root full)"
    by (auto split: if_splits)
  have nulfree: "CHR 0x00 \<notin> set n"
    using set_converted [of opts x] x(2) by (auto simp: n_def)
  have key: "y \<noteq> [] \<and> CHR 0x00 \<notin> set y \<and> converted opts y = y \<and> resolve cwd [root, y] = full"
  proof (cases "full = root")
    case True
    then have yd: "y = ''.''"
      using y by (simp add: relative_def)
    have "resolve cwd [root, ''.''] = CHR ''/'' # joinSlash (normSegs False (rev R) (splitSlash ''.''))"
      using resolve_relative [OF absroot, of "''.''" cwd "[]"]
      by (simp add: segsroot isAbsolute_def)
    then have "resolve cwd [root, ''.''] = root"
      by (simp add: R)
    moreover have "converted opts ''.'' = ''.''"
      by (rule converted_fixed) (simp_all add: normalize_dot)
    ultimately show ?thesis
      using yd True by simp
  next
    case False
    with within have sw: "startsWith (CHR ''/'' # joinSlash F) ((CHR ''/'' # joinSlash R) @ sep)"
      by (simp add: full R)
    from within_segments [OF cR cF sw] obtain ys where
      Rne: "R \<noteq> []" and ys: "ys \<noteq> []" and FR: "F = R @ ys"
      by blast
    have cys: "cleanList ys"
      using cF FR by simp
    have rel: "relative cwd root full = joinSlash ys"
      unfolding R full FR by (rule relative_below [OF cR cys ys])
    have jne: "joinSlash ys \<noteq> []" and jrel: "hd (joinSlash ys) \<noteq> CHR ''/''"
      using joinSlash_first [OF ys] cys cleanList_nonempty_segments [OF cys]
      by (simp_all add: cleanList_def)
    have yj: "y = joinSlash ys"
      using y rel jne by simp
    have notabs: "\<not> isAbsolute y"
      using jne jrel unfolding yj by (cases "joinSlash ys") (simp_all add: isAbsolute_def)
    have sub: "set ys \<subseteq> set (splitSlash n)"
    proof (rule suffix_of_stack)
      show "normSegs False st0 (splitSlash n) = R @ ys"
        using FR by (simp add: F_def)
      show "st0 = [] \<or> st0 = rev R"
        by (simp add: st0_def)
    qed
    have chars: "set y \<subseteq> insert (CHR ''/'') (set n)"
      unfolding yj
    proof (rule set_joinSlash_segments)
      show "\<forall>s \<in> set ys. set s \<subseteq> set n"
        using sub set_splitSlash [of _ n] by blast
    qed
    have nul: "CHR 0x00 \<notin> set y"
      using chars nulfree by auto
    have nb: "toPosix opts = Some True \<longrightarrow> CHR 0x5C \<notin> set y"
      using chars converted_no_backslash [of opts x] by (auto simp: n_def)
    have norm: "normalize y = y"
      unfolding yj by (rule normalize_joinSlash [OF cys ys])
    have conv: "converted opts y = y"
      by (rule converted_fixed [OF norm nb])
    have sy: "splitSlash y = ys"
      unfolding yj using ys cys by (intro splitSlash_joinSlash) (auto simp: cleanList_def slashFree_def)
    have "resolve cwd [root, y] = CHR ''/'' # joinSlash (normSegs False (rev R) (splitSlash y))"
      using resolve_relative [OF absroot notabs, of cwd "[]"] by (simp add: segsroot)
    also have "\<dots> = CHR ''/'' # joinSlash (R @ ys)"
      by (simp add: sy normSegs_cleanList [OF cys])
    finally have "resolve cwd [root, y] = full"
      by (simp add: full FR)
    with jne yj nul conv show ?thesis
      by simp
  qed
  then have yne: "y \<noteq> []" and ynul: "CHR 0x00 \<notin> set y" and k1: "converted opts y = y"
    and k2: "resolve cwd [root, y] = full"
    by simp_all
  have "sanitized cwd y opts =
     (if \<not> startsWith full (root @ sep) \<and> full \<noteq> root then
        Inl (McpError VALIDATION_ERROR
              ''Path traversal detected: attempts to escape the defined root directory.'')
      else Inr (if relative cwd root full = [] then ''.'' else relative cwd root full))"
    using sanitized_with_root [OF yne ynul rd, of cwd] k2
    by (simp add: Let_def root_def [symmetric] k1)
  with form ok show ?thesis
    by simp
qed

lemma stripRootMarker_absPath:
  assumes "c \<noteq> CHR ''/''" and "c \<noteq> CHR 0x5C"
  shows "stripRootMarker (CHR ''/'' # c # cs) = c # cs"
  using assms by (simp add: stripRootMarker_def isAsciiLetter_def isSlash_def)

lemma stripRootMarker_root: "stripRootMarker ''/'' = []"
  by (simp add: stripRootMarker_def isSlash_def)

lemma normSegs_pathOf_relative:
  assumes "cleanList nf" and "nf \<noteq> []"
  shows "normSegs allow st (splitSlash (pathOf False nf t)) = rev st @ nf"
proof -
  have sj: "splitSlash (joinSlash nf) = nf"
    using assms by (intro splitSlash_joinSlash) (auto simp: cleanList_def slashFree_def)
  have "splitSlash (pathOf False nf t) = (if t then nf @ [[]] else nf)"
    using assms(2) sj splitSlash_snoc_slash [of "joinSlash nf"] by (simp add: pathOf_def)
  then show ?thesis
    by (simp add: normSegs_cleanList [OF assms(1)])
qed

lemma idem_without_root:
  assumes cwd: "isAbsolute cwd" and x: "x \<noteq> []" "CHR 0x00 \<notin> set x"
    and rd: "\<not> truthy (rootDir opts)" and nb: "CHR 0x5C \<notin> set x"
    and ok: "sanitized cwd x opts = Inr y"
    and side: "allowAbsolute opts = Some True \<or> \<not> isAbsolute (normalize x) \<or>
               (y \<noteq> [] \<and> resolve cwd [''.''] \<noteq> ''/'')"
  shows "sanitized cwd y opts = Inr y"
proof -
  define n where "n = normalize x"
  have nbn: "CHR 0x5C \<notin> set n" and nuln: "CHR 0x00 \<notin> set n"
    using set_normalize [of x] nb x(2) by (auto simp: n_def)
  have cx: "converted opts x = n"
    using nbn by (simp add: converted_def n_def backslashesToSlashes_id)
  have nn: "normalize n = n"
    by (simp add: n_def normalize_idem)
  have cn: "converted opts n = n"
    by (rule converted_fixed) (simp_all add: nn nbn)
  have nne: "n \<noteq> []"
    by (simp add: n_def)
  have form: "sanitized cwd x opts =
     (if isAbsolute n then Inr (if allowAbsolute opts = Some True then n else stripRootMarker n)
      else if \<not> withinCwd cwd n then
        Inl (McpError VALIDATION_ERROR
              ''Relative path traversal detected (escapes current working directory context).'')
      else Inr n)"
    using sanitized_without_root [OF x rd, of cwd] by (simp add: Let_def cx)
  have formn: "sanitized cwd n opts =
     (if isAbsolute n then Inr (if allowAbsolute opts = Some True then n else stripRootMarker n)
      else if \<not> withinCwd cwd n then
        Inl (McpError VALIDATION_ERROR
              ''Relative path traversal detected (escapes current working directory context).'')
      else Inr n)"
    using sanitized_without_root [OF nne nuln rd, of cwd] by (simp add: Let_def cn)
  show ?thesis
  proof (cases "isAbsolute n")
    case False
    with form ok have "y = n"
      by (auto split: if_splits)
    with form formn ok False show ?thesis
      by simp
  next
    case abs: True
    show ?thesis
    proof (cases "allowAbsolute opts = Some True")
      case True
      with form ok abs have "y = n" by simp
      with formn abs True show ?thesis by simp
    next
      case False
      with form ok abs have ys: "y = stripRootMarker n"
        by simp
      from side False abs have yne: "y \<noteq> []" and notroot: "resolve cwd [''.''] \<noteq> ''/''"
        by (simp_all add: n_def)
      from normalize_shape [of x] obtain nf t where
        shape: "n = pathOf (isAbsolute x) nf t" and nfm: "normalForm (\<not> isAbsolute x) nf"
        and sf: "slashFree nf"
        unfolding n_def by blast
      have ax: "isAbsolute x"
        using abs by (simp add: n_def)
      have cnf: "cleanList nf"
        using nfm sf ax by (simp add: cleanList_def normalForm_False_clean)
      have nfne: "nf \<noteq> []"
      proof
        assume "nf = []"
        with shape ax have "n = ''/''" by (simp add: pathOf_def)
        with ys yne show False by (simp add: stripRootMarker_root)
      qed
      from joinSlash_first [OF nfne sf cleanList_nonempty_segments [OF cnf]]
      obtain c cs where j: "joinSlash nf = c # cs" and c: "c \<noteq> CHR ''/''"
        by (cases "joinSlash nf") auto
      have nshape: "n = CHR ''/'' # c # cs @ (if t then ''/'' else [])"
        using shape ax nfne j by (simp add: pathOf_def)
      have cb: "c \<noteq> CHR 0x5C"
        using nbn nshape by auto
      have yshape: "y = pathOf False nf t"
        using ys nshape nfne j stripRootMarker_absPath [OF c cb] by (simp add: pathOf_def)
      have ysub: "set y \<subseteq> set n"
        using yshape nshape nfne j by (auto simp: pathOf_def)
      have ynul: "CHR 0x00 \<notin> set y" and ynb: "CHR 0x5C \<notin> set y"
        using ysub nuln nbn by auto
      have ynorm: "normalize y = y"
        unfolding yshape
        by (rule normalize_of_pathOf) (simp_all add: cleanList_normalForm [OF cnf] sf)
      have yconv: "converted opts y = y"
        by (rule converted_fixed) (simp_all add: ynorm ynb)
      have yrel: "\<not> isAbsolute y"
        unfolding yshape using pathOf_facts(2) [of False nf t] cleanList_normalForm [OF cnf] sf
        by simp
      define C where "C = absSegs cwd"
      have cC: "cleanList C"
        by (simp add: C_def)
      have ry: "resolve cwd [y] = CHR ''/'' # joinSlash (C @ nf)"
        using resolve_relative_cwd [OF cwd yrel]
        by (simp add: yshape normSegs_pathOf_relative [OF cnf nfne] C_def)
      have rdot: "resolve cwd [''.''] = CHR ''/'' # joinSlash C"
        using resolve_relative_cwd [OF cwd, of "''.''"] by (simp add: isAbsolute_def C_def)
      have Cne: "C \<noteq> []"
        using notroot rdot by auto
      have "joinSlash (C @ nf) = joinSlash C @ CHR ''/'' # joinSlash nf"
        by (rule joinSlash_append [OF Cne nfne])
      then have "withinCwd cwd y"
        by (simp add: withinCwd_def ry rdot startsWith_append sep_def)
      with sanitized_without_root [OF yne ynul rd, of cwd] yrel show ?thesis
        by (simp add: Let_def yconv)
    qed
  qed
qed

text \<open>
  Claim C3, as the code has it.  For a non-empty input without a null byte and a root
  directory \<open>r\<close> supplied in the options: with \<open>root\<close> the root directory as
  \<^verbatim>\<open>path.resolve\<close> gives it and \<open>fullPath\<close> the normalized input resolved against it, the
  call fails with \<open>VALIDATION_ERROR\<close> (path traversal) when \<open>fullPath\<close> neither equals
  \<open>root\<close> nor starts with \<open>root\<close> and the separator; otherwise it returns the path of
  \<open>fullPath\<close> relative to \<open>root\<close>, with \<open>.\<close> for the empty one.
\<close>

theorem sanitizePath_rootDir:
  assumes "input \<noteq> []" and "CHR 0x00 \<notin> set input"
    and "rootDir options = Some r" and "r \<noteq> []"
  shows "sanitizePath cwd input options =
     (let root = resolve cwd [r];
          fullPath = resolve cwd [root, converted options input]
      in if \<not> startsWith fullPath (root @ sep) \<and> fullPath \<noteq> root then
           Inl (McpError VALIDATION_ERROR
                 ''Path traversal detected: attempts to escape the defined root directory.'')
         else
           Inr \<lparr> sanitizedPath =
                   (if relative cwd root fullPath = [] then ''.'' else relative cwd root fullPath),
                 originalInput = input,
                 wasAbsolute = isAbsolute (normalize input),
                 convertedToRelative =
                   (isAbsolute (normalize input) \<and> allowAbsolute options \<noteq> Some True),
                 optionsUsed = effectiveOptions cwd options \<rparr>)"
proof -
  have dot: "\<not> isAbsolute ''.''"
    by (simp add: isAbsolute_def)
  have posix: "(toPosix (effectiveOptions cwd options) = Some True) = (toPosix options = Some True)"
    by (cases "toPosix options") (simp_all add: effectiveOptions_def)
  have allow: "(allowAbsolute (effectiveOptions cwd options) = Some True)
      = (allowAbsolute options = Some True)"
    by (cases "allowAbsolute options") (simp_all add: effectiveOptions_def)
  have root: "rootDir (effectiveOptions cwd options) = Some (resolve cwd [r])"
    using assms(3,4) by (simp add: effectiveOptions_def)
  show ?thesis
    using assms(1,2) dot relative_not_absolute [of cwd]
    by (simp add: sanitizePath_def Let_def posix allow root converted_def validationError_def)
qed

theorem sanitizePath_rootDir_witness:
  "''a/../x'' \<noteq> [] \<and> CHR 0x00 \<notin> set ''a/../x'' \<and>
   rootDir \<lparr> rootDir = Some ''/srv/'', toPosix = None, allowAbsolute = None \<rparr> = Some ''/srv/'' \<and>
   ''/srv/'' \<noteq> [] \<and>
   sanitizePath ''/home/u'' ''a/../x'' \<lparr> rootDir = Some ''/srv/'', toPosix = None, allowAbsolute = None \<rparr> =
     Inr \<lparr> sanitizedPath = ''x'', originalInput = ''a/../x'', wasAbsolute = False,
           convertedToRelative = False,
           optionsUsed = \<lparr> rootDir = Some ''/srv'', toPosix = Some False, allowAbsolute = Some False \<rparr> \<rparr> \<and>
   ''../x'' \<noteq> [] \<and> CHR 0x00 \<notin> set ''../x'' \<and>
   sanitizePath ''/home/u'' ''../x'' \<lparr> rootDir = Some ''/srv/'', toPosix = None, allowAbsolute = None \<rparr> =
     Inl (McpError VALIDATION_ERROR
           ''Path traversal detected: attempts to escape the defined root directory.'')"
proof -
  let ?opts = "\<lparr> rootDir = Some ''/srv/'', toPosix = None, allowAbsolute = None \<rparr>"
  have a1: "''a/../x'' \<noteq> []" and a2: "CHR 0x00 \<notin> set ''a/../x''"
    and b1: "''../x'' \<noteq> []" and b2: "CHR 0x00 \<notin> set ''../x''"
    and r1: "rootDir ?opts = Some ''/srv/''" and r2: "''/srv/'' \<noteq> []"
    by simp_all
  have inside: "sanitizePath ''/home/u'' ''a/../x'' ?opts =
     Inr \<lparr> sanitizedPath = ''x'', originalInput = ''a/../x'', wasAbsolute = False,
           convertedToRelative = False,
           optionsUsed = \<lparr> rootDir = Some ''/srv'', toPosix = Some False, allowAbsolute = Some False \<rparr> \<rparr>"
    unfolding sanitizePath_rootDir [OF a1 a2 r1 r2, of "''/home/u''"]
    by code_simp
  have outside: "sanitizePath ''/home/u'' ''../x'' ?opts =
     Inl (McpError VALIDATION_ERROR
           ''Path traversal detected: attempts to escape the defined root directory.'')"
    unfolding sanitizePath_rootDir [OF b1 b2 r1 r2, of "''/home/u''"]
    by code_simp
  from a1 a2 b1 b2 r1 r2 inside outside show ?thesis
    by blast
qed

text \<open>
  The claim as stated, for every input, fails at the empty input: normalized and resolved
  against the root directory it is the root directory itself, yet the call fails.
\<close>

theorem sanitizePath_rootDir_counterexample:
  "resolve ''/home/u'' [resolve ''/home/u'' [''/srv''],
      converted \<lparr> rootDir = Some ''/srv'', toPosix = None, allowAbsolute = None \<rparr> []]
     = resolve ''/home/u'' [''/srv''] \<and>
   sanitizePath ''/home/u'' [] \<lparr> rootDir = Some ''/srv'', toPosix = None, allowAbsolute = None \<rparr> =
     Inl (McpError VALIDATION_ERROR ''Invalid path input: must be a non-empty string.'')"
  by code_simp

lemma set_stripRootMarker: "set (stripRootMarker s) \<subseteq> set s"
proof -
  have d: "set (dropWhile isSlash t) \<subseteq> set t" for t
    using set_dropWhileD [of _ isSlash t] by blast
  show ?thesis
  proof (cases s)
    case Nil
    then show ?thesis by (simp add: stripRootMarker_def)
  next
    case (Cons c t)
    show ?thesis
    proof (cases t)
      case Nil
      with Cons d [of s] show ?thesis by (simp add: stripRootMarker_def)
    next
      case (Cons e rest)
      with \<open>s = c # t\<close> d [of s] d [of rest] show ?thesis
        by (auto simp: stripRootMarker_def)
    qed
  qed
qed

lemma dropWhile_isSlash_relative: "\<not> isAbsolute (dropWhile isSlash t)"
  by (induction t) (simp_all add: isAbsolute_def isSlash_def)

lemma stripRootMarker_relative: "\<not> isAbsolute (stripRootMarker s)"
proof (cases s)
  case Nil
  then show ?thesis by (simp add: stripRootMarker_def isAbsolute_def)
next
  case (Cons c t)
  show ?thesis
  proof (cases t)
    case Nil
    with Cons dropWhile_isSlash_relative [of s] show ?thesis
      by (simp add: stripRootMarker_def)
  next
    case (Cons e rest)
    with \<open>s = c # t\<close> dropWhile_isSlash_relative [of s] dropWhile_isSlash_relative [of rest]
    show ?thesis
      by (auto simp: stripRootMarker_def)
  qed
qed

lemma sanitized_without_root_cases:
  assumes "\<not> truthy (rootDir opts)" and "sanitizePath cwd x opts = Inr info"
  shows "(isAbsolute (converted opts x) \<and> allowAbsolute opts = Some True \<and>
            sanitizedPath info = converted opts x) \<or>
         (isAbsolute (converted opts x) \<and> allowAbsolute opts \<noteq> Some True \<and>
            sanitizedPath info = stripRootMarker (converted opts x)) \<or>
         (\<not> isAbsolute (converted opts x) \<and> withinCwd cwd (converted opts x) \<and>
            sanitizedPath info = converted opts x)"
proof -
  from sanitizePath_Inr_valid [OF assms(2)] have x: "x \<noteq> []" "CHR 0x00 \<notin> set x"
    by simp_all
  from sanitized_Inr [OF assms(2)] sanitized_without_root [OF x assms(1), of cwd]
  show ?thesis
    by (auto simp: Let_def split: if_splits)
qed

lemma sanitized_path_facts:
  assumes "\<not> truthy (rootDir opts)" and "sanitizePath cwd x opts = Inr info"
  shows "CHR 0x00 \<notin> set (sanitizedPath info)"
    and "toPosix opts = Some True \<longrightarrow> CHR 0x5C \<notin> set (sanitizedPath info)"
    and "isAbsolute (sanitizedPath info) \<longrightarrow> allowAbsolute opts = Some True"
    and "converted opts (sanitizedPath info) = normalize (sanitizedPath info)"
proof -
  from sanitizePath_Inr_valid [OF assms(2)] have x: "x \<noteq> []" "CHR 0x00 \<notin> set x"
    by simp_all
  note c = sanitized_without_root_cases [OF assms]
  have sub: "set (sanitizedPath info) \<subseteq> set (converted opts x)"
    using c set_stripRootMarker [of "converted opts x"] by auto
  show "CHR 0x00 \<notin> set (sanitizedPath info)"
    using sub set_converted [of opts x] x(2) by auto
  show nb: "toPosix opts = Some True \<longrightarrow> CHR 0x5C \<notin> set (sanitizedPath info)"
    using sub converted_no_backslash [of opts x] by auto
  show "isAbsolute (sanitizedPath info) \<longrightarrow> allowAbsolute opts = Some True"
    using c stripRootMarker_relative [of "converted opts x"] by auto
  show "converted opts (sanitizedPath info) = normalize (sanitizedPath info)"
  proof (cases "toPosix opts = Some True")
    case True
    with nb set_normalize [of "sanitizedPath info"]
    have "CHR 0x5C \<notin> set (normalize (sanitizedPath info))"
      by auto
    with True show ?thesis
      by (simp add: converted_def backslashesToSlashes_id)
  next
    case False
    then show ?thesis
      by (simp add: converted_def)
  qed
qed

lemma idem_without_root_iff:
  assumes rd: "\<not> truthy (rootDir opts)" and ok: "sanitizePath cwd x opts = Inr info"
  shows "sanitized cwd (sanitizedPath info) opts = Inr (sanitizedPath info) \<longleftrightarrow>
     sanitizedPath info \<noteq> [] \<and> normalize (sanitizedPath info) = sanitizedPath info \<and>
     (isAbsolute (sanitizedPath info) \<or> withinCwd cwd (sanitizedPath info))"
proof (cases "sanitizedPath info = []")
  case True
  then show ?thesis
    by (simp add: sanitized_def sanitizePath_def validationError_def Let_def)
next
  case False
  define y where "y = sanitizedPath info"
  note f = sanitized_path_facts [OF rd ok, folded y_def]
  have ne: "y \<noteq> []"
    using False by (simp add: y_def)
  have s: "sanitized cwd y opts =
     (if isAbsolute y then Inr (normalize y)
      else if \<not> withinCwd cwd (normalize y) then
           Inl (McpError VALIDATION_ERROR
                 ''Relative path traversal detected (escapes current working directory context).'')
      else Inr (normalize y))"
    using sanitized_without_root [OF ne f(1) rd, of cwd] f(3)
    by (simp add: Let_def f(4))
  have "sanitized cwd y opts = Inr y \<longleftrightarrow>
     y \<noteq> [] \<and> normalize y = y \<and> (isAbsolute y \<or> withinCwd cwd y)"
    unfolding s using ne by auto
  then show ?thesis
    by (simp add: y_def)
qed

lemma idem_plain:
  assumes rd: "\<not> truthy (rootDir opts)" and ok: "sanitizePath cwd x opts = Inr info"
    and abs: "allowAbsolute opts = Some True \<or> \<not> isAbsolute (normalize x)"
    and nb: "toPosix opts \<noteq> Some True \<or> CHR 0x5C \<notin> set x"
  shows "sanitized cwd (sanitizedPath info) opts = Inr (sanitizedPath info)"
proof -
  have conv: "converted opts x = normalize x"
  proof (cases "toPosix opts = Some True")
    case True
    with nb set_normalize [of x] have "CHR 0x5C \<notin> set (normalize x)"
      by auto
    with True show ?thesis
      by (simp add: converted_def backslashesToSlashes_id)
  next
    case False
    then show ?thesis
      by (simp add: converted_def)
  qed
  from sanitized_without_root_cases [OF rd ok] abs
  have "sanitizedPath info = normalize x \<and> (isAbsolute (normalize x) \<or> withinCwd cwd (normalize x))"
    unfolding conv by auto
  then show ?thesis
    unfolding idem_without_root_iff [OF rd ok] by (simp add: normalize_idem)
qed

text \<open>
  Claim C4, as the code has it.  Sanitizing the sanitized path of a successful call
  again, with the same options, succeeds and returns the same sanitized path whenever a
  root directory is supplied (the working directory being absolute).  Without a root
  directory it does so exactly when the sanitized path is not empty, is left unchanged by
  \<^verbatim>\<open>path.normalize\<close> and, if it is relative, lies within the working directory.  That is
  the case whenever the normalized input is relative or absolute paths are allowed, and
  the input has no backslash or \<open>toPosix\<close> is off; and, for an absolute input that is
  stripped of its root marker, whenever the input has no backslash, the stripped result
  is not empty and the working directory is not the root of the file system.
\<close>

theorem sanitizePath_idempotent:
  assumes "sanitizePath cwd x opts = Inr info"
  shows
    "(isAbsolute cwd \<and> truthy (rootDir opts) \<longrightarrow>
        (\<exists>info'. sanitizePath cwd (sanitizedPath info) opts = Inr info' \<and>
                 sanitizedPath info' = sanitizedPath info)) \<and>
     (\<not> truthy (rootDir opts) \<longrightarrow>
        ((\<exists>info'. sanitizePath cwd (sanitizedPath info) opts = Inr info' \<and>
                  sanitizedPath info' = sanitizedPath info) \<longleftrightarrow>
         sanitizedPath info \<noteq> [] \<and> normalize (sanitizedPath info) = sanitizedPath info \<and>
         (isAbsolute (sanitizedPath info) \<or> withinCwd cwd (sanitizedPath info)))) \<and>
     (\<not> truthy (rootDir opts) \<and>
      (allowAbsolute opts = Some True \<or> \<not> isAbsolute (normalize x)) \<and>
      (toPosix opts \<noteq> Some True \<or> CHR 0x5C \<notin> set x) \<longrightarrow>
        (\<exists>info'. sanitizePath cwd (sanitizedPath info) opts = Inr info' \<and>
                 sanitizedPath info' = sanitizedPath info)) \<and>
     (isAbsolute cwd \<and> \<not> truthy (rootDir opts) \<and> CHR 0x5C \<notin> set x \<and>
      sanitizedPath info \<noteq> [] \<and> resolve cwd [''.''] \<noteq> ''/'' \<longrightarrow>
        (\<exists>info'. sanitizePath cwd (sanitizedPath info) opts = Inr info' \<and>
                 sanitizedPath info' = sanitizedPath info))"
proof -
  let ?y = "sanitizedPath info"
  let ?idem = "\<exists>info'. sanitizePath cwd ?y opts = Inr info' \<and> sanitizedPath info' = ?y"
  from sanitizePath_Inr_valid [OF assms] have x: "x \<noteq> []" "CHR 0x00 \<notin> set x"
    by simp_all
  have ok: "sanitized cwd x opts = Inr ?y"
    using assms by (rule sanitized_Inr)
  have eq: "?idem \<longleftrightarrow> sanitized cwd ?y opts = Inr ?y"
    using sanitized_InrD [of cwd ?y opts ?y] sanitized_Inr [of cwd ?y opts] by auto
  have a: "isAbsolute cwd \<and> truthy (rootDir opts) \<longrightarrow> ?idem"
    unfolding eq using idem_with_root [OF _ x _ ok] by blast
  have b: "\<not> truthy (rootDir opts) \<longrightarrow>
      (?idem \<longleftrightarrow> ?y \<noteq> [] \<and> normalize ?y = ?y \<and> (isAbsolute ?y \<or> withinCwd cwd ?y))"
    unfolding eq using idem_without_root_iff [OF _ assms] by blast
  have c: "\<not> truthy (rootDir opts) \<and>
      (allowAbsolute opts = Some True \<or> \<not> isAbsolute (normalize x)) \<and>
      (toPosix opts \<noteq> Some True \<or> CHR 0x5C \<notin> set x) \<longrightarrow> ?idem"
    unfolding eq using idem_plain [OF _ assms] by blast
  have d: "isAbsolute cwd \<and> \<not> truthy (rootDir opts) \<and> CHR 0x5C \<notin> set x \<and>
      ?y \<noteq> [] \<and> resolve cwd [''.''] \<noteq> ''/'' \<longrightarrow> ?idem"
    unfolding eq using idem_without_root [OF _ x _ _ ok] by blast
  from a b c d show ?thesis
    by blast
qed

theorem sanitizePath_idempotent_witness:
  "isAbsolute ''/home/u'' \<and>
   sanitizePath ''/home/u'' ''/srv/a/../b/'' \<lparr> rootDir = None, toPosix = None, allowAbsolute = None \<rparr> =
     Inr \<lparr> sanitizedPath = ''srv/b/'', originalInput = ''/srv/a/../b/'', wasAbsolute = True,
           convertedToRelative = True,
           optionsUsed = \<lparr> rootDir = None, toPosix = Some False, allowAbsolute = Some False \<rparr> \<rparr> \<and>
   CHR 0x5C \<notin> set ''/srv/a/../b/'' \<and> ''srv/b/'' \<noteq> [] \<and> resolve ''/home/u'' [''.''] \<noteq> ''/'' \<and>
   (\<exists>info'. sanitizePath ''/home/u'' ''srv/b/''
               \<lparr> rootDir = None, toPosix = None, allowAbsolute = None \<rparr> = Inr info' \<and>
            sanitizedPath info' = ''srv/b/'') \<and>
   sanitizePath ''/home/u'' [CHR ''.'', CHR ''/'', CHR ''a'', CHR 0x5C, CHR ''b'']
       \<lparr> rootDir = None, toPosix = None, allowAbsolute = None \<rparr> =
     Inr \<lparr> sanitizedPath = [CHR ''a'', CHR 0x5C, CHR ''b''],
           originalInput = [CHR ''.'', CHR ''/'', CHR ''a'', CHR 0x5C, CHR ''b''],
           wasAbsolute = False, convertedToRelative = False,
           optionsUsed = \<lparr> rootDir = None, toPosix = Some False, allowAbsolute = Some False \<rparr> \<rparr> \<and>
   \<not> isAbsolute (normalize [CHR ''.'', CHR ''/'', CHR ''a'', CHR 0x5C, CHR ''b'']) \<and>
   (\<exists>info'. sanitizePath ''/home/u'' [CHR ''a'', CHR 0x5C, CHR ''b'']
               \<lparr> rootDir = None, toPosix = None, allowAbsolute = None \<rparr> = Inr info' \<and>
            sanitizedPath info' = [CHR ''a'', CHR 0x5C, CHR ''b'']) \<and>
   sanitizePath ''/home/u'' [CHR ''/'', CHR ''x'', CHR ''/'', CHR ''.'', CHR ''/'', CHR 0x5C, CHR ''y'']
       \<lparr> rootDir = None, toPosix = Some False, allowAbsolute = Some True \<rparr> =
     Inr \<lparr> sanitizedPath = [CHR ''/'', CHR ''x'', CHR ''/'', CHR 0x5C, CHR ''y''],
           originalInput = [CHR ''/'', CHR ''x'', CHR ''/'', CHR ''.'', CHR ''/'', CHR 0x5C, CHR ''y''],
           wasAbsolute = True, convertedToRelative = False,
           optionsUsed = \<lparr> rootDir = None, toPosix = Some False, allowAbsolute = Some True \<rparr> \<rparr> \<and>
   (\<exists>info'. sanitizePath ''/home/u'' [CHR ''/'', CHR ''x'', CHR ''/'', CHR 0x5C, CHR ''y'']
               \<lparr> rootDir = None, toPosix = Some False, allowAbsolute = Some True \<rparr> = Inr info' \<and>
            sanitizedPath info' = [CHR ''/'', CHR ''x'', CHR ''/'', CHR 0x5C, CHR ''y'']) \<and>
   sanitizePath ''/home/u'' ''docs/../b/c/''
       \<lparr> rootDir = Some ''/srv'', toPosix = None, allowAbsolute = None \<rparr> =
     Inr \<lparr> sanitizedPath = ''b/c'', originalInput = ''docs/../b/c/'', wasAbsolute = False,
           convertedToRelative = False,
           optionsUsed = \<lparr> rootDir = Some ''/srv'', toPosix = Some False,
                           allowAbsolute = Some False \<rparr> \<rparr> \<and>
   (\<exists>info'. sanitizePath ''/home/u'' ''b/c''
               \<lparr> rootDir = Some ''/srv'', toPosix = None, allowAbsolute = None \<rparr> = Inr info' \<and>
            sanitizedPath info' = ''b/c'')"
proof -
  let ?opts = "\<lparr> rootDir = None, toPosix = None, allowAbsolute = None \<rparr>"
  let ?abs = "\<lparr> rootDir = None, toPosix = Some False, allowAbsolute = Some True \<rparr>"
  let ?rooted = "\<lparr> rootDir = Some ''/srv'', toPosix = None, allowAbsolute = None \<rparr>"
  let ?info = "\<lparr> sanitizedPath = ''srv/b/'', originalInput = ''/srv/a/../b/'', wasAbsolute = True,
           convertedToRelative = True,
           optionsUsed = \<lparr> rootDir = None, toPosix = Some False, allowAbsolute = Some False \<rparr> \<rparr>"
  let ?x2 = "[CHR ''.'', CHR ''/'', CHR ''a'', CHR 0x5C, CHR ''b'']"
  let ?info2 = "\<lparr> sanitizedPath = [CHR ''a'', CHR 0x5C, CHR ''b''],
           originalInput = ?x2, wasAbsolute = False, convertedToRelative = False,
           optionsUsed = \<lparr> rootDir = None, toPosix = Some False, allowAbsolute = Some False \<rparr> \<rparr>"
  let ?x3 = "[CHR ''/'', CHR ''x'', CHR ''/'', CHR ''.'', CHR ''/'', CHR 0x5C, CHR ''y'']"
  let ?info3 = "\<lparr> sanitizedPath = [CHR ''/'', CHR ''x'', CHR ''/'', CHR 0x5C, CHR ''y''],
           originalInput = ?x3, wasAbsolute = True, convertedToRelative = False,
           optionsUsed = \<lparr> rootDir = None, toPosix = Some False, allowAbsolute = Some True \<rparr> \<rparr>"
  let ?info4 = "\<lparr> sanitizedPath = ''b/c'', originalInput = ''docs/../b/c/'', wasAbsolute = False,
           convertedToRelative = False,
           optionsUsed = \<lparr> rootDir = Some ''/srv'', toPosix = Some False,
                           allowAbsolute = Some False \<rparr> \<rparr>"
  have cwd: "isAbsolute ''/home/u''"
    by code_simp
  have run: "sanitizePath ''/home/u'' ''/srv/a/../b/'' ?opts = Inr ?info"
    by code_simp
  have nb: "CHR 0x5C \<notin> set ''/srv/a/../b/''"
    by simp
  have ne: "''srv/b/'' \<noteq> []"
    by simp
  have nr: "resolve ''/home/u'' [''.''] \<noteq> ''/''"
    by code_simp
  have noroot: "\<not> truthy (rootDir ?opts)" "\<not> truthy (rootDir ?abs)"
    by (simp_all add: truthy_def)
  have root: "truthy (rootDir ?rooted)"
    by (simp add: truthy_def)
  from sanitizePath_idempotent [OF run, THEN conjunct2, THEN conjunct2, THEN conjunct2]
    cwd noroot(1) nb nr
  have i1: "\<exists>info'. sanitizePath ''/home/u'' ''srv/b/'' ?opts = Inr info' \<and>
      sanitizedPath info' = ''srv/b/''"
    by simp
  have run2: "sanitizePath ''/home/u'' ?x2 ?opts = Inr ?info2"
    by code_simp
  have rel2: "\<not> isAbsolute (normalize ?x2)"
    by code_simp
  from sanitizePath_idempotent [OF run2, THEN conjunct2, THEN conjunct2, THEN conjunct1]
    noroot(1) rel2
  have i2: "\<exists>info'. sanitizePath ''/home/u'' [CHR ''a'', CHR 0x5C, CHR ''b''] ?opts = Inr info' \<and>
      sanitizedPath info' = [CHR ''a'', CHR 0x5C, CHR ''b'']"
    by simp
  have run3: "sanitizePath ''/home/u'' ?x3 ?abs = Inr ?info3"
    by code_simp
  from sanitizePath_idempotent [OF run3, THEN conjunct2, THEN conjunct2, THEN conjunct1]
    noroot(2)
  have i3: "\<exists>info'. sanitizePath ''/home/u'' [CHR ''/'', CHR ''x'', CHR ''/'', CHR 0x5C, CHR ''y'']
      ?abs = Inr info' \<and>
      sanitizedPath info' = [CHR ''/'', CHR ''x'', CHR ''/'', CHR 0x5C, CHR ''y'']"
    by simp
  have run4: "sanitizePath ''/home/u'' ''docs/../b/c/'' ?rooted = Inr ?info4"
    by code_simp
  from sanitizePath_idempotent [OF run4, THEN conjunct1] cwd root
  have i4: "\<exists>info'. sanitizePath ''/home/u'' ''b/c'' ?rooted = Inr info' \<and>
      sanitizedPath info' = ''b/c''"
    by simp
  from cwd run nb ne nr i1 run2 rel2 i2 run3 i3 run4 i4 show ?thesis
    by blast
qed

text \<open>
  The claim as stated fails in four ways: the root \<^verbatim>\<open>/\<close> is stripped to the empty
  path, which is refused; with \<open>toPosix\<close> a backslash becomes a slash after the
  normalization, so the result is normalized further by the second call; in the root
  working directory the relative result of stripping is refused as a traversal; and the
  root marker that is stripped takes the backslashes after the slash with it, so what is
  left may start with a \<^verbatim>\<open>.\<close> segment that the second call removes.
\<close>

theorem sanitizePath_idempotent_counterexample:
  "sanitizePath ''/home/u'' ''/'' \<lparr> rootDir = None, toPosix = None, allowAbsolute = None \<rparr> =
     Inr \<lparr> sanitizedPath = [], originalInput = ''/'', wasAbsolute = True,
           convertedToRelative = True,
           optionsUsed = \<lparr> rootDir = None, toPosix = Some False, allowAbsolute = Some False \<rparr> \<rparr> \<and>
   sanitizePath ''/home/u'' [] \<lparr> rootDir = None, toPosix = None, allowAbsolute = None \<rparr> =
     Inl (McpError VALIDATION_ERROR ''Invalid path input: must be a non-empty string.'') \<and>
   sanitizePath ''/home/u'' [CHR ''/'', CHR ''a'', CHR ''/'', CHR 0x5C, CHR ''b'']
       \<lparr> rootDir = None, toPosix = Some True, allowAbsolute = Some True \<rparr> =
     Inr \<lparr> sanitizedPath = ''/a//b'',
           originalInput = [CHR ''/'', CHR ''a'', CHR ''/'', CHR 0x5C, CHR ''b''],
           wasAbsolute = True, convertedToRelative = False,
           optionsUsed = \<lparr> rootDir = None, toPosix = Some True, allowAbsolute = Some True \<rparr> \<rparr> \<and>
   sanitizePath ''/home/u'' ''/a//b'' \<lparr> rootDir = None, toPosix = Some True, allowAbsolute = Some True \<rparr> =
     Inr \<lparr> sanitizedPath = ''/a/b'', originalInput = ''/a//b'', wasAbsolute = True,
           convertedToRelative = False,
           optionsUsed = \<lparr> rootDir = None, toPosix = Some True, allowAbsolute = Some True \<rparr> \<rparr> \<and>
   sanitizePath ''/'' ''/a'' \<lparr> rootDir = None, toPosix = None, allowAbsolute = None \<rparr> =
     Inr \<lparr> sanitizedPath = ''a'', originalInput = ''/a'', wasAbsolute = True,
           convertedToRelative = True,
           optionsUsed = \<lparr> rootDir = None, toPosix = Some False, allowAbsolute = Some False \<rparr> \<rparr> \<and>
   sanitizePath ''/'' ''a'' \<lparr> rootDir = None, toPosix = None, allowAbsolute = None \<rparr> =
     Inl (McpError VALIDATION_ERROR
           ''Relative path traversal detected (escapes current working directory context).'') \<and>
   sanitizePath ''/home/u'' [CHR ''/'', CHR 0x5C, CHR ''.'', CHR ''/'', CHR ''b'']
       \<lparr> rootDir = None, toPosix = None, allowAbsolute = None \<rparr> =
     Inr \<lparr> sanitizedPath = ''./b'',
           originalInput = [CHR ''/'', CHR 0x5C, CHR ''.'', CHR ''/'', CHR ''b''],
           wasAbsolute = True, convertedToRelative = True,
           optionsUsed = \<lparr> rootDir = None, toPosix = Some False, allowAbsolute = Some False \<rparr> \<rparr> \<and>
   sanitizePath ''/home/u'' ''./b'' \<lparr> rootDir = None, toPosix = None, allowAbsolute = None \<rparr> =
     Inr \<lparr> sanitizedPath = ''b'', originalInput = ''./b'', wasAbsolute = False,
           convertedToRelative = False,
           optionsUsed = \<lparr> rootDir = None, toPosix = Some False, allowAbsolute = Some False \<rparr> \<rparr>"
  by code_simp

section \<open>Properties of the path resolver\<close>

lemma sanitizeAndConfine_default_irrelevant:
  "sanitizeAndConfine cwd (st\<lparr> defaultFilesystemPath := d \<rparr>) req p =
     sanitizeAndConfine cwd st req p"
  by (simp add: sanitizeAndConfine_def Let_def split: sum.split)

lemma resolveAcc_append:
  "resolveAcc (ps @ qs) acc =
     (case resolveAcc ps acc of
        (p, True) \<Rightarrow> (p, True)
      | (p, False) \<Rightarrow> resolveAcc qs p)"
  by (induction ps acc rule: resolveAcc.induct) simp_all

lemma resolveEnv_Cwd [simp]: "resolveEnv (Cwd cwd) args = Inr (resolve cwd args)"
  by (simp add: resolveEnv_def resolve_def resolveAcc_append split: prod.split bool.split)

lemma relativeEnv_Cwd [simp]: "relativeEnv (Cwd cwd) from to = Inr (relative cwd from to)"
  by (simp add: relativeEnv_def relative_def Let_def split: prod.split)

lemma resolveEnv_absolute:
  "isAbsolute r \<Longrightarrow> \<exists>root. resolveEnv env [r] = Inr root"
  by (cases r) (simp_all add: resolveEnv_def isAbsolute_def)

lemma effectiveOptionsEnv_Cwd:
  "snd (effectiveOptionsEnv (Cwd cwd) options) = Inr (effectiveOptions cwd options)"
  by (simp add: effectiveOptionsEnv_def effectiveOptions_def Let_def split: option.split)

lemma relative_same: "relative cwd r r = []"
  by (simp add: relative_def)

lemma sanitizeBody_Cwd:
  assumes "eff = effectiveOptions cwd options"
  shows "snd (sanitizeBody (Cwd cwd) input eff) =
     (case sanitizePath cwd input options of
        Inl e \<Rightarrow> Inl (message e)
      | Inr info \<Rightarrow> Inr info)"
proof (cases "input = [] \<or> CHR 0x00 \<in> set input")
  case True
  then show ?thesis
    by (auto simp: sanitizeBody_def sanitizePath_def validationError_def Let_def)
next
  case False
  show ?thesis
  proof (cases "case rootDir eff of None \<Rightarrow> None | Some r \<Rightarrow> if r = [] then None else Some r")
    case None
    with False assms [symmetric] show ?thesis
      by (simp add: sanitizeBody_def sanitizePath_def validationError_def Let_def)
  next
    case (Some root)
    with False assms [symmetric] show ?thesis
      by (auto simp: sanitizeBody_def sanitizePath_def validationError_def Let_def relative_same)
  qed
qed

lemma sanitizePathEnv_Cwd:
  "snd (sanitizePathEnv (Cwd cwd) input options) =
     map_sum Wrapped id (sanitizePath cwd input options)"
proof -
  obtain calls where e: "effectiveOptionsEnv (Cwd cwd) options = (calls, Inr (effectiveOptions cwd options))"
    using effectiveOptionsEnv_Cwd [of cwd options]
    by (cases "effectiveOptionsEnv (Cwd cwd) options") simp
  obtain calls' r where b: "sanitizeBody (Cwd cwd) input (effectiveOptions cwd options) = (calls', r)"
    by (cases "sanitizeBody (Cwd cwd) input (effectiveOptions cwd options)") simp
  from sanitizeBody_Cwd [OF refl, of cwd input options] b
  have r: "r = (case sanitizePath cwd input options of Inl e \<Rightarrow> Inl (message e) | Inr info \<Rightarrow> Inr info)"
    by simp
  have v: "code e = VALIDATION_ERROR" if "sanitizePath cwd input options = Inl e" for e
    using that
    by (auto simp: sanitizePath_def validationError_def Let_def split: if_splits option.splits)
  show ?thesis
  proof (cases "sanitizePath cwd input options")
    case (Inl err)
    from v [OF Inl] have "err = McpError VALIDATION_ERROR (message err)"
      by (cases err) simp
    with Inl r e b show ?thesis
      by (simp add: sanitizePathEnv_def)
  next
    case (Inr info)
    with r e b show ?thesis
      by (simp add: sanitizePathEnv_def)
  qed
qed

lemma effectiveOptionsEnv_calls:
  "fst (effectiveOptionsEnv env options) =
     (if truthy (rootDir options) then [CallResolve [the (rootDir options)]] else [])"
  by (simp add: effectiveOptionsEnv_def truthy_def Let_def split: option.split)

lemma effectiveOptionsEnv_result:
  "snd (effectiveOptionsEnv env options) =
     (if truthy (rootDir options) then
        (case resolveEnv env [the (rootDir options)] of
           Inl msg \<Rightarrow> Inl msg
         | Inr root \<Rightarrow>
             Inr \<lparr> rootDir = Some root,
                   toPosix = Some (case toPosix options of None \<Rightarrow> False | Some b \<Rightarrow> b),
                   allowAbsolute = Some (case allowAbsolute options of None \<Rightarrow> False | Some b \<Rightarrow> b) \<rparr>)
      else
        Inr \<lparr> rootDir = None,
              toPosix = Some (case toPosix options of None \<Rightarrow> False | Some b \<Rightarrow> b),
              allowAbsolute = Some (case allowAbsolute options of None \<Rightarrow> False | Some b \<Rightarrow> b) \<rparr>)"
  by (simp add: effectiveOptionsEnv_def truthy_def Let_def split: option.split sum.split)

lemma sanitizeBody_null_byte:
  "CHR 0x00 \<in> set input \<Longrightarrow>
     sanitizeBody env input eff = ([], Inl ''Path contains null byte, which is disallowed.'')"
  by (auto simp: sanitizeBody_def Let_def)

lemma sanitizePathEnv_null_byte:
  assumes "CHR 0x00 \<in> set input"
  shows "fst (sanitizePathEnv env input options) =
           (if truthy (rootDir options) then [CallResolve [the (rootDir options)]] else [])"
    and "snd (sanitizePathEnv env input options) =
           (case snd (effectiveOptionsEnv env options) of
              Inl msg \<Rightarrow> Inl (RawError msg)
            | Inr eff \<Rightarrow>
                Inl (Wrapped (McpError VALIDATION_ERROR
                  ''Path contains null byte, which is disallowed.'')))"
proof -
  obtain calls r where e: "effectiveOptionsEnv env options = (calls, r)"
    by (cases "effectiveOptionsEnv env options") simp
  from effectiveOptionsEnv_calls [of env options] e
  have c: "calls = (if truthy (rootDir options) then [CallResolve [the (rootDir options)]] else [])"
    by simp
  show "fst (sanitizePathEnv env input options) =
           (if truthy (rootDir options) then [CallResolve [the (rootDir options)]] else [])"
    using e c assms by (cases r) (simp_all add: sanitizePathEnv_def sanitizeBody_null_byte)
  show "snd (sanitizePathEnv env input options) =
           (case snd (effectiveOptionsEnv env options) of
              Inl msg \<Rightarrow> Inl (RawError msg)
            | Inr eff \<Rightarrow>
                Inl (Wrapped (McpError VALIDATION_ERROR
                  ''Path contains null byte, which is disallowed.'')))"
    using e assms by (cases r) (simp_all add: sanitizePathEnv_def sanitizeBody_null_byte)
qed

text \<open>
  Claim C2, as the code has it.  An input that contains a null byte is refused with
  \<open>VALIDATION_ERROR\<close> and the message of the null-byte check, whatever the options are,
  whenever the resolution of the \<open>rootDir\<close> option succeeds: when no \<open>rootDir\<close> is given,
  when it is absolute, or when the working directory can be read.  That resolution is the
  only call of the \<^verbatim>\<open>path\<close> module that precedes the refusal: the input is not
  normalized and nothing is resolved against the root directory.  When the resolution
  throws, its error leaves the function unwrapped.
\<close>

theorem sanitizePath_null_byte:
  "CHR 0x00 \<in> set input \<Longrightarrow>
     sanitizePath cwd input options =
       Inl (McpError VALIDATION_ERROR ''Path contains null byte, which is disallowed.'') \<and>
     sanitizePathEnv (Cwd cwd) input options =
       (if truthy (rootDir options) then [CallResolve [the (rootDir options)]] else [],
        Inl (Wrapped (McpError VALIDATION_ERROR
          ''Path contains null byte, which is disallowed.''))) \<and>
     fst (sanitizePathEnv env input options) =
       (if truthy (rootDir options) then [CallResolve [the (rootDir options)]] else []) \<and>
     (\<not> truthy (rootDir options) \<or> (\<exists>root. resolveEnv env [the (rootDir options)] = Inr root) \<longrightarrow>
        snd (sanitizePathEnv env input options) =
          Inl (Wrapped (McpError VALIDATION_ERROR
            ''Path contains null byte, which is disallowed.''))) \<and>
     (\<not> truthy (rootDir options) \<or> isAbsolute (the (rootDir options)) \<or> (\<exists>d. env = Cwd d) \<longrightarrow>
        snd (sanitizePathEnv env input options) =
          Inl (Wrapped (McpError VALIDATION_ERROR
            ''Path contains null byte, which is disallowed.''))) \<and>
     (\<forall>msg. truthy (rootDir options) \<and> resolveEnv env [the (rootDir options)] = Inl msg \<longrightarrow>
        snd (sanitizePathEnv env input options) = Inl (RawError msg))"
proof -
  assume nul: "CHR 0x00 \<in> set input"
  let ?calls = "if truthy (rootDir options) then [CallResolve [the (rootDir options)]] else []"
  let ?refused = "Inl (Wrapped (McpError VALIDATION_ERROR
      ''Path contains null byte, which is disallowed.'')) :: Thrown + SanitizedPathInfo"
  note env = sanitizePathEnv_null_byte [OF nul]
  have a: "sanitizePath cwd input options =
       Inl (McpError VALIDATION_ERROR ''Path contains null byte, which is disallowed.'')"
    using nul by (auto simp: sanitizePath_def validationError_def Let_def)
  have ok: "snd (sanitizePathEnv e input options) = ?refused"
    if "\<not> truthy (rootDir options) \<or> (\<exists>root. resolveEnv e [the (rootDir options)] = Inr root)"
    for e
    using that env(2) [of e options] by (auto simp: effectiveOptionsEnv_result)
  have b: "sanitizePathEnv (Cwd cwd) input options = (?calls, ?refused)"
    using env(1) [of "Cwd cwd" options] ok [of "Cwd cwd"]
    by (cases "sanitizePathEnv (Cwd cwd) input options") simp
  have c: "fst (sanitizePathEnv env input options) = ?calls"
    by (rule env(1))
  have d: "\<not> truthy (rootDir options) \<or> (\<exists>root. resolveEnv env [the (rootDir options)] = Inr root) \<longrightarrow>
      snd (sanitizePathEnv env input options) = ?refused"
    using ok [of env] by blast
  have e: "\<not> truthy (rootDir options) \<or> isAbsolute (the (rootDir options)) \<or> (\<exists>d. env = Cwd d) \<longrightarrow>
      snd (sanitizePathEnv env input options) = ?refused"
    using ok [of env] resolveEnv_absolute [of "the (rootDir options)" env] resolveEnv_Cwd
    by blast
  have f: "\<forall>msg. truthy (rootDir options) \<and> resolveEnv env [the (rootDir options)] = Inl msg \<longrightarrow>
      snd (sanitizePathEnv env input options) = Inl (RawError msg)"
    using env(2) [of env options] by (auto simp: effectiveOptionsEnv_result)
  from a b c d e f show ?thesis
    by blast
qed

theorem sanitizePath_null_byte_witness:
  "CHR 0x00 \<in> set [CHR ''a'', CHR 0x00, CHR ''b''] \<and>
   sanitizePath ''/home/u'' [CHR ''a'', CHR 0x00, CHR ''b'']
       \<lparr> rootDir = Some ''/srv'', toPosix = Some True, allowAbsolute = None \<rparr> =
     Inl (McpError VALIDATION_ERROR ''Path contains null byte, which is disallowed.'') \<and>
   sanitizePathEnv (Cwd ''/home/u'') [CHR ''a'', CHR 0x00, CHR ''b'']
       \<lparr> rootDir = Some ''/srv'', toPosix = Some True, allowAbsolute = None \<rparr> =
     ([CallResolve [''/srv'']],
      Inl (Wrapped (McpError VALIDATION_ERROR ''Path contains null byte, which is disallowed.''))) \<and>
   isAbsolute ''/srv'' \<and>
   sanitizePathEnv (CwdFails ''ENOENT: no such file or directory, uv_cwd'')
       [CHR ''a'', CHR 0x00, CHR ''b'']
       \<lparr> rootDir = Some ''/srv'', toPosix = Some True, allowAbsolute = None \<rparr> =
     ([CallResolve [''/srv'']],
      Inl (Wrapped (McpError VALIDATION_ERROR ''Path contains null byte, which is disallowed.'')))"
proof -
  let ?input = "[CHR ''a'', CHR 0x00, CHR ''b'']"
  let ?options = "\<lparr> rootDir = Some ''/srv'', toPosix = Some True, allowAbsolute = None \<rparr>"
  let ?gone = "CwdFails ''ENOENT: no such file or directory, uv_cwd''"
  have nul: "CHR 0x00 \<in> set ?input"
    by simp
  have abs: "isAbsolute ''/srv''"
    by code_simp
  have root: "truthy (rootDir ?options)" "the (rootDir ?options) = ''/srv''"
    by (simp_all add: truthy_def)
  note t = sanitizePath_null_byte [OF nul, of "''/home/u''" ?options ?gone]
  from t have a: "sanitizePath ''/home/u'' ?input ?options =
     Inl (McpError VALIDATION_ERROR ''Path contains null byte, which is disallowed.'')"
    by (rule conjunct1)
  from t [THEN conjunct2, THEN conjunct1] root
  have b: "sanitizePathEnv (Cwd ''/home/u'') ?input ?options =
     ([CallResolve [''/srv'']],
      Inl (Wrapped (McpError VALIDATION_ERROR ''Path contains null byte, which is disallowed.'')))"
    by simp
  from t [THEN conjunct2, THEN conjunct2, THEN conjunct1] root
  have c: "fst (sanitizePathEnv ?gone ?input ?options) = [CallResolve [''/srv'']]"
    by simp
  from t [THEN conjunct2, THEN conjunct2, THEN conjunct2, THEN conjunct2, THEN conjunct1]
    root abs
  have d: "snd (sanitizePathEnv ?gone ?input ?options) =
      Inl (Wrapped (McpError VALIDATION_ERROR ''Path contains null byte, which is disallowed.''))"
    by simp
  from c d have e: "sanitizePathEnv ?gone ?input ?options =
     ([CallResolve [''/srv'']],
      Inl (Wrapped (McpError VALIDATION_ERROR ''Path contains null byte, which is disallowed.'')))"
    by (cases "sanitizePathEnv ?gone ?input ?options") simp
  from nul a b abs e show ?thesis
    by blast
qed

text \<open>
  The claim as stated fails where the working directory cannot be read and \<open>rootDir\<close> is
  relative: the resolution of \<open>rootDir\<close> comes first and throws outside the \<^verbatim>\<open>try\<close>
  block, so the call does not fail with \<open>VALIDATION_ERROR\<close>.  And where the working
  directory can be read, the root directory has been resolved before the input is
  refused.
\<close>

theorem sanitizePath_null_byte_counterexample:
  "CHR 0x00 \<in> set [CHR ''a'', CHR 0x00, CHR ''b''] \<and>
   sanitizePathEnv (CwdFails ''ENOENT: no such file or directory, uv_cwd'')
       [CHR ''a'', CHR 0x00, CHR ''b'']
       \<lparr> rootDir = Some ''data'', toPosix = None, allowAbsolute = None \<rparr> =
     ([CallResolve [''data'']], Inl (RawError ''ENOENT: no such file or directory, uv_cwd'')) \<and>
   sanitizePathEnv (Cwd ''/home/u'') [CHR ''a'', CHR 0x00, CHR ''b'']
       \<lparr> rootDir = Some ''data'', toPosix = None, allowAbsolute = None \<rparr> =
     ([CallResolve [''data'']],
      Inl (Wrapped (McpError VALIDATION_ERROR ''Path contains null byte, which is disallowed.'')))"
  by code_simp

lemma isAbsolute_append: "isAbsolute d \<Longrightarrow> isAbsolute (d @ s)"
  by (cases d) (simp_all add: isAbsolute_def)

lemma join_default:
  assumes "isAbsolute d"
  shows "join [d, p] = normalize (if p = [] then d else d @ ''/'' @ p)"
    and "isAbsolute (join [d, p])"
    and "set (join [d, p]) \<subseteq> {CHR ''/'', CHR ''.''} \<union> set d \<union> set p"
    and "normalize (join [d, p]) = join [d, p]"
proof -
  have d: "d \<noteq> []"
    using assms by (rule isAbsolute_nonempty)
  show j: "join [d, p] = normalize (if p = [] then d else d @ ''/'' @ p)"
    using d by (simp add: join_def)
  show "isAbsolute (join [d, p])"
    unfolding j using assms by (simp add: isAbsolute_append)
  show "set (join [d, p]) \<subseteq> {CHR ''/'', CHR ''.''} \<union> set d \<union> set p"
    unfolding j using set_normalize [of "if p = [] then d else d @ ''/'' @ p"] by auto
  show "normalize (join [d, p]) = join [d, p]"
    unfolding j by (rule normalize_idem)
qed

lemma sanitizePath_resolver_fixed:
  assumes "isAbsolute n" and "normalize n = n" and "CHR 0x00 \<notin> set n" and "CHR 0x5C \<notin> set n"
  shows "\<exists>info. sanitizePath cwd n resolverOptions = Inr info \<and> sanitizedPath info = n"
proof -
  have ne: "n \<noteq> []"
    using assms(1) by (rule isAbsolute_nonempty)
  have rd: "\<not> truthy (rootDir resolverOptions)"
    by (simp add: resolverOptions_def truthy_def)
  have conv: "converted resolverOptions n = n"
    by (rule converted_fixed) (simp_all add: assms(2,4))
  have allow: "allowAbsolute resolverOptions = Some True"
    by (simp add: resolverOptions_def)
  have "sanitized cwd n resolverOptions = Inr n"
    using sanitized_without_root [OF ne assms(3) rd, of cwd] assms(1)
    by (simp add: Let_def conv allow)
  then show ?thesis
    by (rule sanitized_InrD)
qed

text \<open>
  Claim C5.  A relative \<open>requestedPath\<close> is refused with \<open>VALIDATION_ERROR\<close> when no
  default path is set.  When a default path \<open>d\<close> is set, the path that is sanitized and
  checked against the base directory is \<open>path.join(d, req)\<close>: the outcome is the error
  of the sanitizer, or \<open>FORBIDDEN\<close> when a base directory is set and the sanitized
  path lies outside it, or the sanitized path.  When \<open>d\<close> is absolute and neither
  \<open>d\<close> nor the request holds a null byte or a backslash, the sanitizer returns the
  joined path unchanged, so that the value returned is \<open>path.join(d, req)\<close> itself.
\<close>

theorem resolvePath_relative:
  "\<not> isAbsolute req \<Longrightarrow>
     (\<not> truthy (defaultFilesystemPath st) \<longrightarrow>
        resolvePath cwd st req = Inl (McpError VALIDATION_ERROR noDefaultMessage)) \<and>
     (\<forall>d. defaultFilesystemPath st = Some d \<and> d \<noteq> [] \<longrightarrow>
        resolvePath cwd st req =
          sanitizeAndConfine cwd st req (join [d, req]) \<and>
        resolvePath cwd st req =
          (case sanitizePath cwd (join [d, req]) resolverOptions of
             Inl e \<Rightarrow> Inl e
           | Inr info \<Rightarrow>
               if truthy (fsBaseDirectory st) \<and>
                  \<not> withinBase (normalize (the (fsBaseDirectory st))) (normalize (sanitizedPath info))
               then Inl (McpError FORBIDDEN (forbiddenMessage req))
               else Inr (sanitizedPath info))) \<and>
     (\<forall>d. defaultFilesystemPath st = Some d \<and> isAbsolute d \<and>
          CHR 0x00 \<notin> set d \<union> set req \<and> CHR 0x5C \<notin> set d \<union> set req \<longrightarrow>
        resolvePath cwd st req =
          (if truthy (fsBaseDirectory st) \<and>
              \<not> withinBase (normalize (the (fsBaseDirectory st))) (join [d, req])
           then Inl (McpError FORBIDDEN (forbiddenMessage req))
           else Inr (join [d, req])))"
proof (intro conjI allI impI)
  assume rel: "\<not> isAbsolute req"
  {
    assume "\<not> truthy (defaultFilesystemPath st)"
    with rel show "resolvePath cwd st req = Inl (McpError VALIDATION_ERROR noDefaultMessage)"
      by (simp add: resolvePath_def)
  }
  {
    fix d
    assume d: "defaultFilesystemPath st = Some d \<and> d \<noteq> []"
    with rel show "resolvePath cwd st req = sanitizeAndConfine cwd st req (join [d, req])"
      by (simp add: resolvePath_def truthy_def)
    from rel d show "resolvePath cwd st req =
          (case sanitizePath cwd (join [d, req]) resolverOptions of
             Inl e \<Rightarrow> Inl e
           | Inr info \<Rightarrow>
               if truthy (fsBaseDirectory st) \<and>
                  \<not> withinBase (normalize (the (fsBaseDirectory st))) (normalize (sanitizedPath info))
               then Inl (McpError FORBIDDEN (forbiddenMessage req))
               else Inr (sanitizedPath info))"
      by (auto simp: resolvePath_def truthy_def sanitizeAndConfine_def withinBase_def Let_def
          split: sum.splits)
  }
  {
    fix d
    assume h: "defaultFilesystemPath st = Some d \<and> isAbsolute d \<and>
          CHR 0x00 \<notin> set d \<union> set req \<and> CHR 0x5C \<notin> set d \<union> set req"
    then have abs: "isAbsolute d" by simp
    note j = join_default [OF abs, of req]
    have nul: "CHR 0x00 \<notin> set (join [d, req])" and nb: "CHR 0x5C \<notin> set (join [d, req])"
      using j(3) h by auto
    from sanitizePath_resolver_fixed [OF j(2) j(4) nul nb, of cwd] obtain info where
      s: "sanitizePath cwd (join [d, req]) resolverOptions = Inr info"
      and p: "sanitizedPath info = join [d, req]"
      by blast
    have dne: "d \<noteq> []"
      using abs by (rule isAbsolute_nonempty)
    show "resolvePath cwd st req =
          (if truthy (fsBaseDirectory st) \<and>
              \<not> withinBase (normalize (the (fsBaseDirectory st))) (join [d, req])
           then Inl (McpError FORBIDDEN (forbiddenMessage req))
           else Inr (join [d, req]))"
      using rel h dne s p j(4)
      by (simp add: resolvePath_def truthy_def sanitizeAndConfine_def withinBase_def Let_def)
  }
qed

theorem resolvePath_relative_witness:
  "\<not> isAbsolute ''notes.txt'' \<and>
   \<not> truthy (defaultFilesystemPath \<lparr> defaultFilesystemPath = None, fsBaseDirectory = None \<rparr>) \<and>
   resolvePath ''/'' \<lparr> defaultFilesystemPath = None, fsBaseDirectory = None \<rparr> ''notes.txt'' =
     Inl (McpError VALIDATION_ERROR noDefaultMessage) \<and>
   isAbsolute ''/srv/data'' \<and>
   CHR 0x00 \<notin> set ''/srv/data'' \<union> set ''notes.txt'' \<and>
   CHR 0x5C \<notin> set ''/srv/data'' \<union> set ''notes.txt'' \<and>
   join [''/srv/data'', ''notes.txt''] = ''/srv/data/notes.txt'' \<and>
   resolvePath ''/'' \<lparr> defaultFilesystemPath = Some ''/srv/data'', fsBaseDirectory = None \<rparr>
       ''notes.txt'' = Inr ''/srv/data/notes.txt'' \<and>
   resolvePath ''/'' \<lparr> defaultFilesystemPath = Some ''/srv/data'', fsBaseDirectory = Some ''/srv'' \<rparr>
       ''../x/./y'' = Inr ''/srv/x/y'' \<and>
   resolvePath ''/'' \<lparr> defaultFilesystemPath = Some ''/srv/data'', fsBaseDirectory = Some ''/srv'' \<rparr>
       ''../../etc'' = Inl (McpError FORBIDDEN (forbiddenMessage ''../../etc''))"
proof -
  let ?none = "\<lparr> defaultFilesystemPath = None, fsBaseDirectory = None \<rparr>"
  let ?free = "\<lparr> defaultFilesystemPath = Some ''/srv/data'', fsBaseDirectory = None \<rparr>"
  let ?boxed = "\<lparr> defaultFilesystemPath = Some ''/srv/data'', fsBaseDirectory = Some ''/srv'' \<rparr>"
  have rel: "\<not> isAbsolute ''notes.txt''" and rel2: "\<not> isAbsolute ''../x/./y''"
    and rel3: "\<not> isAbsolute ''../../etc''"
    by code_simp+
  have abs: "isAbsolute ''/srv/data''"
    by code_simp
  have unset: "\<not> truthy (defaultFilesystemPath ?none)"
    by (simp add: truthy_def)
  have j1: "join [''/srv/data'', ''notes.txt''] = ''/srv/data/notes.txt''"
    and j2: "join [''/srv/data'', ''../x/./y''] = ''/srv/x/y''"
    and j3: "join [''/srv/data'', ''../../etc''] = ''/etc''"
    by code_simp+
  have w2: "withinBase (normalize ''/srv'') ''/srv/x/y''"
    and w3: "\<not> withinBase (normalize ''/srv'') ''/etc''"
    by code_simp+
  have c1: "CHR 0x00 \<notin> set ''/srv/data'' \<union> set ''notes.txt''"
    and c2: "CHR 0x5C \<notin> set ''/srv/data'' \<union> set ''notes.txt''"
    by simp_all
  have r0: "resolvePath ''/'' ?none ''notes.txt'' = Inl (McpError VALIDATION_ERROR noDefaultMessage)"
    using resolvePath_relative [OF rel, of ?none "''/''"] unset by blast
  have r1: "resolvePath ''/'' ?free ''notes.txt'' = Inr ''/srv/data/notes.txt''"
    using resolvePath_relative [OF rel, of ?free "''/''", THEN conjunct2, THEN conjunct2,
        rule_format, of "''/srv/data''"] abs j1
    by (simp add: truthy_def)
  have r2: "resolvePath ''/'' ?boxed ''../x/./y'' = Inr ''/srv/x/y''"
    using resolvePath_relative [OF rel2, of ?boxed "''/''", THEN conjunct2, THEN conjunct2,
        rule_format, of "''/srv/data''"] abs j2 w2
    by (simp add: truthy_def)
  have r3: "resolvePath ''/'' ?boxed ''../../etc'' = Inl (McpError FORBIDDEN (forbiddenMessage ''../../etc''))"
    using resolvePath_relative [OF rel3, of ?boxed "''/''", THEN conjunct2, THEN conjunct2,
        rule_format, of "''/srv/data''"] abs j3 w3
    by (simp add: truthy_def)
  from rel unset r0 abs c1 c2 j1 r1 r2 r3 show ?thesis
    by blast
qed

text \<open>
  Claim C10.  For an absolute \<open>requestedPath\<close> the outcome of \<open>resolvePath\<close>, value or
  error, is the same for any two values of the session default path.
\<close>

theorem resolvePath_absolute_ignores_default:
  "isAbsolute req \<Longrightarrow>
     resolvePath cwd (st\<lparr> defaultFilesystemPath := da \<rparr>) req =
     resolvePath cwd (st\<lparr> defaultFilesystemPath := db \<rparr>) req"
  by (simp add: resolvePath_def sanitizeAndConfine_default_irrelevant)

theorem resolvePath_absolute_ignores_default_witness:
  "isAbsolute ''/srv/x/../y'' \<and>
   resolvePath ''/'' \<lparr> defaultFilesystemPath = None, fsBaseDirectory = Some ''/srv'' \<rparr>
       ''/srv/x/../y'' = Inr ''/srv/y'' \<and>
   resolvePath ''/'' \<lparr> defaultFilesystemPath = Some ''/tmp'', fsBaseDirectory = Some ''/srv'' \<rparr>
       ''/srv/x/../y'' = Inr ''/srv/y''"
proof -
  have a: "isAbsolute ''/srv/x/../y''"
    by code_simp
  have v: "resolvePath ''/'' \<lparr> defaultFilesystemPath = None, fsBaseDirectory = Some ''/srv'' \<rparr>
       ''/srv/x/../y'' = Inr ''/srv/y''"
    by code_simp
  show ?thesis
    using a v
      resolvePath_absolute_ignores_default [OF a,
        where cwd = "''/''"
          and st = "\<lparr> defaultFilesystemPath = None, fsBaseDirectory = Some ''/srv'' \<rparr>"
          and da = None and db = "Some ''/tmp''"]
    by simp
qed

text \<open>
  Claim C1.  With a base directory \<open>base\<close> configured, every path that \<open>resolvePath\<close>
  returns equals the normalized base or starts with the normalized base followed by the
  separator (both compared in normalized form), and it is the very path that is returned
  without a base directory: nothing is cut or rewritten.  Conversely, whenever the path
  resolved without a base directory breaks the prefix condition, \<open>resolvePath\<close> fails
  with \<open>FORBIDDEN\<close>.
\<close>

theorem resolvePath_within_base:
  "fsBaseDirectory st = Some base \<Longrightarrow> base \<noteq> [] \<Longrightarrow>
     (\<forall>p. resolvePath cwd st req = Inr p \<longrightarrow>
        withinBase (normalize base) (normalize p) \<and>
        resolvePath cwd (st\<lparr> fsBaseDirectory := None \<rparr>) req = Inr p) \<and>
     (\<forall>p. resolvePath cwd (st\<lparr> fsBaseDirectory := None \<rparr>) req = Inr p \<and>
          \<not> withinBase (normalize base) (normalize p) \<longrightarrow>
        resolvePath cwd st req = Inl (McpError FORBIDDEN (forbiddenMessage req)))"
  by (auto simp: resolvePath_def sanitizeAndConfine_def truthy_def withinBase_def Let_def
      split: sum.splits if_splits)

theorem resolvePath_within_base_witness:
  "fsBaseDirectory \<lparr> defaultFilesystemPath = Some ''/sandbox/work'', fsBaseDirectory = Some ''/sandbox'' \<rparr>
     = Some ''/sandbox'' \<and> ''/sandbox'' \<noteq> [] \<and>
   resolvePath ''/'' \<lparr> defaultFilesystemPath = Some ''/sandbox/work'', fsBaseDirectory = Some ''/sandbox'' \<rparr>
     ''../x'' = Inr ''/sandbox/x'' \<and>
   withinBase (normalize ''/sandbox'') (normalize ''/sandbox/x'') \<and>
   resolvePath ''/'' \<lparr> defaultFilesystemPath = Some ''/sandbox/work'', fsBaseDirectory = None \<rparr>
     ''../../etc/passwd'' = Inr ''/etc/passwd'' \<and>
   \<not> withinBase (normalize ''/sandbox'') (normalize ''/etc/passwd'') \<and>
   resolvePath ''/'' \<lparr> defaultFilesystemPath = Some ''/sandbox/work'', fsBaseDirectory = Some ''/sandbox'' \<rparr>
     ''../../etc/passwd'' = Inl (McpError FORBIDDEN (forbiddenMessage ''../../etc/passwd''))"
proof -
  let ?st = "\<lparr> defaultFilesystemPath = Some ''/sandbox/work'', fsBaseDirectory = Some ''/sandbox'' \<rparr>"
  have b: "fsBaseDirectory ?st = Some ''/sandbox''" and ne: "''/sandbox'' \<noteq> []"
    by simp_all
  have inside: "resolvePath ''/'' ?st ''../x'' = Inr ''/sandbox/x''"
    by code_simp
  have free: "resolvePath ''/'' (?st\<lparr> fsBaseDirectory := None \<rparr>) ''../../etc/passwd'' = Inr ''/etc/passwd''"
    by code_simp
  have out: "\<not> withinBase (normalize ''/sandbox'') (normalize ''/etc/passwd'')"
    by code_simp
  from resolvePath_within_base [OF b ne, of "''/''" "''../x''"] inside
  have w: "withinBase (normalize ''/sandbox'') (normalize ''/sandbox/x'')"
    by blast
  from resolvePath_within_base [OF b ne, of "''/''" "''../../etc/passwd''"] free out
  have f: "resolvePath ''/'' ?st ''../../etc/passwd'' =
      Inl (McpError FORBIDDEN (forbiddenMessage ''../../etc/passwd''))"
    by blast
  show ?thesis
    using b ne inside w free out f by simp
qed

section \<open>Properties of the directory enumerator\<close>

declare readDirectoryRecursive.simps [simp del]
declare forEntries.simps(2) [simp del]

lemma budgetStep_refl: "budgetOk st \<Longrightarrow> budgetStep st st"
  by (simp add: budgetStep_def)

lemma budgetStep_trans: "budgetStep a b \<Longrightarrow> budgetStep b c \<Longrightarrow> budgetStep a c"
  by (auto simp: budgetStep_def)

lemma budgetStep_truncate:
  "budgetOk st \<Longrightarrow> limit st \<le> count st \<or> TraversalState.truncated st \<Longrightarrow>
     budgetStep st (st\<lparr> TraversalState.truncated := True \<rparr>)"
  by (auto simp: budgetStep_def budgetOk_def)

lemma budgetStep_count:
  "budgetOk st \<Longrightarrow> \<not> limit st \<le> count st \<Longrightarrow> budgetStep st (st\<lparr> count := count st + 1 \<rparr>)"
  by (auto simp: budgetStep_def budgetOk_def)

lemma budget_preserved:
  "budgetOk st \<Longrightarrow> budgetStep st (fst (readDirectoryRecursive cmp dp node nested st))"
  "budgetOk st \<Longrightarrow> budgetStep st (fst (forEntries cmp dp es nested st acc))"
proof (induction cmp dp node nested st and cmp dp es nested st acc
    rule: readDirectoryRecursive_forEntries.induct)
  case (1 cmp dp node nested st)
  show ?case
  proof (cases "TraversalState.truncated st \<or> limit st \<le> count st")
    case True
    then show ?thesis
      using budgetStep_truncate [OF "1.prems"]
      by (auto simp: readDirectoryRecursive.simps)
  next
    case False
    show ?thesis
    proof (cases node)
      case File
      then show ?thesis
        using False "1.prems"
        by (simp add: readDirectoryRecursive.simps budgetStep_refl)
    next
      case (Dir entries)
      from "1.IH" [OF False Dir "1.prems"]
      show ?thesis
        using False Dir
        by (auto simp: readDirectoryRecursive.simps split: prod.split)
    next
      case (Unreadable e)
      then show ?thesis
        using False "1.prems"
        by (simp add: readDirectoryRecursive.simps budgetStep_refl)
    qed
  qed
next
  case (2 cmp dp nested st acc)
  then show ?case by (simp add: budgetStep_refl)
next
  case (3 cmp dp entryName node rest nested st acc)
  show ?case
  proof (cases "limit st \<le> count st")
    case True
    then show ?thesis
      using budgetStep_truncate [OF "3.prems"]
      by (simp add: forEntries.simps(2))
  next
    case False
    let ?st1 = "st\<lparr> count := count st + 1 \<rparr>"
    let ?step = "(if entryIsDirectory node \<and> nested then
                 (case readDirectoryRecursive cmp (join [dp, entryName]) node nested ?st1 of
                    (state', Inr sub) \<Rightarrow>
                      (state', DirectoryItem entryName (entryIsDirectory node) (Some sub) None)
                  | (state', Inl e) \<Rightarrow>
                      (state', DirectoryItem entryName (entryIsDirectory node) None
                                 (Some (nestedErrorMessage e))))
               else (?st1, DirectoryItem entryName (entryIsDirectory node) None None))"
    obtain x y where xy: "(x, y) = ?step"
      by (cases ?step) simp
    have unfold: "forEntries cmp dp ((entryName, node) # rest) nested st acc =
        (if TraversalState.truncated x then (x, acc @ [y])
         else forEntries cmp dp rest nested x (acc @ [y]))"
      by (subst forEntries.simps(2)) (simp only: False if_False xy [symmetric] prod.case)
    have s1: "budgetStep st ?st1"
      using budgetStep_count [OF "3.prems" False] .
    then have ok1: "budgetOk ?st1"
      by (simp add: budgetStep_def)
    have sx: "budgetStep ?st1 x"
    proof (cases "entryIsDirectory node \<and> nested")
      case True
      obtain s r where rr:
        "readDirectoryRecursive cmp (join [dp, entryName]) node nested ?st1 = (s, r)"
        by (cases "readDirectoryRecursive cmp (join [dp, entryName]) node nested ?st1") simp
      from xy True rr have "x = s"
        by (cases r) simp_all
      with "3.IH"(1) [OF False True ok1] rr show ?thesis
        by simp
    next
      case False
      with xy have "x = ?st1"
        by simp
      with ok1 show ?thesis
        by (simp add: budgetStep_refl)
    qed
    have stx: "budgetStep st x"
      using budgetStep_trans [OF s1 sx] .
    show ?thesis
    proof (cases "TraversalState.truncated x")
      case True
      with stx show ?thesis
        by (simp only: unfold if_True fst_conv)
    next
      case nt: False
      have okx: "budgetOk x"
        using stx by (simp add: budgetStep_def)
      from "3.IH"(2) [OF False xy nt okx]
      have "budgetStep x (fst (forEntries cmp dp rest nested x (acc @ [y])))" .
      with stx nt show ?thesis
        by (simp only: unfold if_False) (rule budgetStep_trans)
    qed
  qed
qed

lemma truncated_readDirectoryRecursive:
  "TraversalState.truncated b \<Longrightarrow> readDirectoryRecursive cmp dp node nested b = (b, Inr [])"
  by (simp add: readDirectoryRecursive.simps)

lemma truncated_forEntries:
  "TraversalState.truncated b \<Longrightarrow> limit b \<le> count b \<Longrightarrow> forEntries cmp dp es nested b acc = (b, acc)"
  by (cases es) (auto simp: forEntries.simps(2))

lemma listed_simps [simp]:
  "listed [] = 0"
  "listed (xs @ ys) = listed xs + listed ys"
  "listed [DirectoryItem n d None e] = 1"
  "listed [DirectoryItem n d (Some sub) e] = 1 + listed sub"
  by (simp_all add: listed_def)

lemma listed_insertItem: "listed (insertItem cmp x ys) = listed [x] + listed ys"
  by (induction ys) (simp_all add: listed_def)

lemma listed_sortItems: "listed (sortItems cmp xs) = listed xs"
  by (induction xs) (simp_all add: listed_insertItem, simp add: listed_def)

lemma forEntries_step:
  "forEntries cmp dp (entry # rest) nested b acc =
     (case forEntries cmp dp [entry] nested b acc of
        (b1, acc1) \<Rightarrow>
          if TraversalState.truncated b1 then (b1, acc1)
          else forEntries cmp dp rest nested b1 acc1)"
proof (cases entry)
  case (Pair entryName node)
  show ?thesis
    unfolding Pair
    by (subst forEntries.simps(2), subst forEntries.simps(2))
      (simp split: prod.splits)
qed

lemma count_listed:
  "count (fst (readDirectoryRecursive cmp dp node nested b)) =
     count b + (case snd (readDirectoryRecursive cmp dp node nested b) of
                  Inl e \<Rightarrow> 0 | Inr items \<Rightarrow> listed items)"
  "count (fst (forEntries cmp dp es nested b acc)) + listed acc =
     count b + listed (snd (forEntries cmp dp es nested b acc))"
proof (induction cmp dp node nested b and cmp dp es nested b acc
    rule: readDirectoryRecursive_forEntries.induct)
  case (1 cmp dp node nested b)
  show ?case
  proof (cases "TraversalState.truncated b \<or> limit b \<le> count b")
    case True
    then show ?thesis
      by (auto simp: readDirectoryRecursive.simps)
  next
    case False
    show ?thesis
    proof (cases node)
      case File
      with False show ?thesis
        by (simp add: readDirectoryRecursive.simps)
    next
      case (Dir entries)
      from "1.IH" [OF False Dir] False Dir show ?thesis
        by (auto simp: readDirectoryRecursive.simps listed_sortItems split: prod.splits)
    next
      case (Unreadable e)
      with False show ?thesis
        by (simp add: readDirectoryRecursive.simps)
    qed
  qed
next
  case (2 cmp dp nested b acc)
  show ?case by simp
next
  case (3 cmp dp entryName node rest nested b acc)
  show ?case
  proof (cases "limit b \<le> count b")
    case True
    then show ?thesis
      by (simp add: forEntries.simps(2))
  next
    case False
    let ?b1 = "b\<lparr> count := count b + 1 \<rparr>"
    let ?step = "(if entryIsDirectory node \<and> nested then
                 (case readDirectoryRecursive cmp (join [dp, entryName]) node nested ?b1 of
                    (state', Inr sub) \<Rightarrow>
                      (state', DirectoryItem entryName (entryIsDirectory node) (Some sub) None)
                  | (state', Inl e) \<Rightarrow>
                      (state', DirectoryItem entryName (entryIsDirectory node) None
                                 (Some (nestedErrorMessage e))))
               else (?b1, DirectoryItem entryName (entryIsDirectory node) None None))"
    obtain x y where xy: "(x, y) = ?step"
      by (cases ?step) simp
    have unfold: "forEntries cmp dp ((entryName, node) # rest) nested b acc =
        (if TraversalState.truncated x then (x, acc @ [y])
         else forEntries cmp dp rest nested x (acc @ [y]))"
      by (subst forEntries.simps(2)) (simp only: False if_False xy [symmetric] prod.case)
    have one: "count x = count b + listed [y]"
    proof (cases "entryIsDirectory node \<and> nested")
      case True
      obtain s r where rr:
        "readDirectoryRecursive cmp (join [dp, entryName]) node nested ?b1 = (s, r)"
        by (cases "readDirectoryRecursive cmp (join [dp, entryName]) node nested ?b1") simp
      from "3.IH"(1) [OF False True] rr
      have c: "count s = count b + 1 + (case r of Inl e \<Rightarrow> 0 | Inr items \<Rightarrow> listed items)"
        by simp
      show ?thesis
      proof (cases r)
        case (Inl e)
        with xy True rr c show ?thesis by simp
      next
        case (Inr sub)
        with xy True rr c show ?thesis by simp
      qed
    next
      case False
      with xy show ?thesis by simp
    qed
    show ?thesis
    proof (cases "TraversalState.truncated x")
      case True
      with one show ?thesis
        by (simp add: unfold)
    next
      case nt: False
      from "3.IH"(2) [OF False xy nt] one nt show ?thesis
        by (simp add: unfold)
    qed
  qed
qed

lemma listFilesLogic_count:
  assumes "listFilesLogic cmp cwd srv fsys input = Inr out"
  shows "itemCount out = listed (tree out)"
proof -
  let ?b0 = "\<lparr> count = 0, limit = maxEntries input, truncated = False \<rparr>"
  obtain p where p: "resolvePath cwd srv (path input) = Inr p"
    using assms by (cases "resolvePath cwd srv (path input)") (simp_all add: listFilesLogic_def)
  obtain b' r where br: "readDirectoryRecursive cmp p (fsys p) (includeNested input) ?b0 = (b', r)"
    by (cases "readDirectoryRecursive cmp p (fsys p) (includeNested input) ?b0") simp
  from assms p br obtain items where r: "r = Inr items" and t: "tree out = items"
    and c: "itemCount out = count b'"
    by (cases r) (auto simp: listFilesLogic_def)
  from count_listed(1) [of cmp p "fsys p" "includeNested input" ?b0] br r
  have "count b' = listed items" by simp
  with t c show ?thesis by simp
qed

text \<open>
  Claim C6.  From every state of the counter that satisfies \<open>count \<le> limit\<close> (and in
  which \<open>truncated\<close> is set only when the limit is reached, as in the fresh state and in
  every state that follows it), a call of \<open>readDirectoryRecursive\<close> and a run of its loop
  over entries end in a state with \<open>count \<le> limit\<close> and the same limit; once
  \<open>truncated\<close> is set they count nothing and add nothing.  The counter is one for all
  levels: a call raises it by the number of items it lists at all levels below the
  directory, a failed call leaves it alone, and the loop raises it by what it adds to
  the items collected.  After each entry the loop looks at the state that the entry, with
  everything enumerated below it, has left: if \<open>truncated\<close> is set there, at whatever
  depth, the loop stops; otherwise the entries that follow start from that state.  The
  count returned by \<open>listFilesLogic\<close> is the number of items of the whole tree and never
  exceeds \<open>maxEntries\<close>, and over a directory of five files with \<open>maxEntries = 2\<close> it is
  2 with \<open>truncated\<close> set.
\<close>

theorem traversal_budget:
  assumes "count b \<le> limit b" and "TraversalState.truncated b \<longrightarrow> limit b \<le> count b"
  shows
    "(\<forall>b' r. readDirectoryRecursive cmp dp node nested b = (b', r) \<longrightarrow>
        count b' \<le> limit b' \<and> limit b' = limit b \<and> count b \<le> count b' \<and>
        (TraversalState.truncated b' \<longrightarrow> limit b' \<le> count b') \<and>
        (TraversalState.truncated b \<longrightarrow> b' = b \<and> r = Inr [])) \<and>
     (\<forall>b' acc'. forEntries cmp dp es nested b acc = (b', acc') \<longrightarrow>
        count b' \<le> limit b' \<and> limit b' = limit b \<and> count b \<le> count b' \<and>
        (TraversalState.truncated b' \<longrightarrow> limit b' \<le> count b') \<and>
        (TraversalState.truncated b \<longrightarrow> b' = b \<and> acc' = acc)) \<and>
     (\<forall>cwd srv fsys input out.
        0 \<le> maxEntries input \<and> listFilesLogic cmp cwd srv fsys input = Inr out \<longrightarrow>
        0 \<le> itemCount out \<and> itemCount out \<le> maxEntries input) \<and>
     (\<forall>cwd srv fsys input p n1 n2 n3 n4 n5.
        resolvePath cwd srv (path input) = Inr p \<and> maxEntries input = 2 \<and>
        fsys p = Dir [(n1, File), (n2, File), (n3, File), (n4, File), (n5, File)] \<longrightarrow>
        (\<exists>out. listFilesLogic cmp cwd srv fsys input = Inr out \<and>
               itemCount out = 2 \<and> ListFilesOutput.truncated out)) \<and>
     (\<forall>b' items. readDirectoryRecursive cmp dp node nested b = (b', Inr items) \<longrightarrow>
        count b' = count b + listed items) \<and>
     (\<forall>b' e. readDirectoryRecursive cmp dp node nested b = (b', Inl e) \<longrightarrow>
        count b' = count b) \<and>
     (\<forall>b' acc'. forEntries cmp dp es nested b acc = (b', acc') \<longrightarrow>
        count b' + listed acc = count b + listed acc') \<and>
     (\<forall>entry rest b1 acc1. forEntries cmp dp [entry] nested b acc = (b1, acc1) \<longrightarrow>
        forEntries cmp dp (entry # rest) nested b acc =
          (if TraversalState.truncated b1 then (b1, acc1)
           else forEntries cmp dp rest nested b1 acc1)) \<and>
     (\<forall>cwd srv fsys input out.
        listFilesLogic cmp cwd srv fsys input = Inr out \<longrightarrow>
        itemCount out = listed (tree out) \<and>
        (0 \<le> maxEntries input \<longrightarrow> listed (tree out) \<le> maxEntries input))"
proof -
  have ok: "budgetOk b"
    using assms by (simp add: budgetOk_def)
  have a: "\<forall>b' r. readDirectoryRecursive cmp dp node nested b = (b', r) \<longrightarrow>
        count b' \<le> limit b' \<and> limit b' = limit b \<and> count b \<le> count b' \<and>
        (TraversalState.truncated b' \<longrightarrow> limit b' \<le> count b') \<and>
        (TraversalState.truncated b \<longrightarrow> b' = b \<and> r = Inr [])"
    using budget_preserved(1) [OF ok, of cmp dp node nested]
      truncated_readDirectoryRecursive [of b cmp dp node nested]
    by (auto simp: budgetStep_def budgetOk_def)
  have c: "\<forall>b' acc'. forEntries cmp dp es nested b acc = (b', acc') \<longrightarrow>
        count b' \<le> limit b' \<and> limit b' = limit b \<and> count b \<le> count b' \<and>
        (TraversalState.truncated b' \<longrightarrow> limit b' \<le> count b') \<and>
        (TraversalState.truncated b \<longrightarrow> b' = b \<and> acc' = acc)"
    using budget_preserved(2) [OF ok, of cmp dp es nested acc]
      truncated_forEntries [of b cmp dp es nested acc] assms
    by (auto simp: budgetStep_def budgetOk_def)
  have bound: "0 \<le> itemCount out \<and> itemCount out \<le> maxEntries input"
    if h: "0 \<le> maxEntries input \<and> listFilesLogic cmp cwd srv fsys input = Inr out"
    for cwd srv fsys input out
  proof -
    let ?b0 = "\<lparr> count = 0, limit = maxEntries input, truncated = False \<rparr>"
    have ok0: "budgetOk ?b0"
      using h by (simp add: budgetOk_def)
    obtain p where p: "resolvePath cwd srv (path input) = Inr p"
      using h by (cases "resolvePath cwd srv (path input)") (simp_all add: listFilesLogic_def)
    obtain b' r where br: "readDirectoryRecursive cmp p (fsys p) (includeNested input) ?b0 = (b', r)"
      by (cases "readDirectoryRecursive cmp p (fsys p) (includeNested input) ?b0") simp
    from budget_preserved(1) [OF ok0, of cmp p "fsys p" "includeNested input"] br
    have "count b' \<le> maxEntries input \<and> 0 \<le> count b'"
      by (simp add: budgetStep_def budgetOk_def)
    moreover from h p br have "itemCount out = count b'"
      by (cases r) (auto simp: listFilesLogic_def)
    ultimately show ?thesis
      by simp
  qed
  then have d: "\<forall>cwd srv fsys input out.
        0 \<le> maxEntries input \<and> listFilesLogic cmp cwd srv fsys input = Inr out \<longrightarrow>
        0 \<le> itemCount out \<and> itemCount out \<le> maxEntries input"
    by blast
  have e: "\<forall>cwd srv fsys input p n1 n2 n3 n4 n5.
        resolvePath cwd srv (path input) = Inr p \<and> maxEntries input = 2 \<and>
        fsys p = Dir [(n1, File), (n2, File), (n3, File), (n4, File), (n5, File)] \<longrightarrow>
        (\<exists>out. listFilesLogic cmp cwd srv fsys input = Inr out \<and>
               itemCount out = 2 \<and> ListFilesOutput.truncated out)"
    by (simp add: listFilesLogic_def readDirectoryRecursive.simps forEntries.simps(2)
        split: prod.split)
  have f: "\<forall>b' items. readDirectoryRecursive cmp dp node nested b = (b', Inr items) \<longrightarrow>
        count b' = count b + listed items"
    using count_listed(1) [of cmp dp node nested b] by auto
  have g: "\<forall>b' e. readDirectoryRecursive cmp dp node nested b = (b', Inl e) \<longrightarrow>
        count b' = count b"
    using count_listed(1) [of cmp dp node nested b] by auto
  have h: "\<forall>b' acc'. forEntries cmp dp es nested b acc = (b', acc') \<longrightarrow>
        count b' + listed acc = count b + listed acc'"
    using count_listed(2) [of cmp dp es nested b acc] by auto
  have i: "\<forall>entry rest b1 acc1. forEntries cmp dp [entry] nested b acc = (b1, acc1) \<longrightarrow>
        forEntries cmp dp (entry # rest) nested b acc =
          (if TraversalState.truncated b1 then (b1, acc1)
           else forEntries cmp dp rest nested b1 acc1)"
  proof (intro allI impI)
    fix entry rest b1 acc1
    assume "forEntries cmp dp [entry] nested b acc = (b1, acc1)"
    then show "forEntries cmp dp (entry # rest) nested b acc =
          (if TraversalState.truncated b1 then (b1, acc1)
           else forEntries cmp dp rest nested b1 acc1)"
      by (subst forEntries_step) simp
  qed
  have j: "\<forall>cwd srv fsys input out.
        listFilesLogic cmp cwd srv fsys input = Inr out \<longrightarrow>
        itemCount out = listed (tree out) \<and>
        (0 \<le> maxEntries input \<longrightarrow> listed (tree out) \<le> maxEntries input)"
  proof (intro allI impI conjI)
    fix cwd srv fsys input out
    assume l: "listFilesLogic cmp cwd srv fsys input = Inr out"
    then show eq: "itemCount out = listed (tree out)"
      by (rule listFilesLogic_count)
    assume "0 \<le> maxEntries input"
    with l bound [of input cwd srv fsys out] eq show "listed (tree out) \<le> maxEntries input"
      by simp
  qed
  from a c d e f g h i j show ?thesis
    by blast
qed

theorem traversal_budget_witness:
  "count \<lparr> count = 0, limit = 2, truncated = False \<rparr>
     \<le> limit \<lparr> count = 0, limit = 2, truncated = False \<rparr> \<and>
   \<not> TraversalState.truncated \<lparr> count = 0, limit = 2, truncated = False \<rparr> \<and>
   readDirectoryRecursive referenceCompare ''/d''
       (Dir [(''e'', File), (''d'', File), (''c'', File), (''b'', File), (''a'', File)]) True
       \<lparr> count = 0, limit = 2, truncated = False \<rparr> =
     (\<lparr> count = 2, limit = 2, truncated = True \<rparr>,
      Inr [DirectoryItem ''d'' False None None, DirectoryItem ''e'' False None None]) \<and>
   count \<lparr> count = 2, limit = 2, truncated = True \<rparr>
     \<le> limit \<lparr> count = 2, limit = 2, truncated = True \<rparr> \<and>
   (\<exists>out. listFilesLogic referenceCompare ''/''
             \<lparr> defaultFilesystemPath = None, fsBaseDirectory = None \<rparr>
             (\<lambda>p. Dir [(''e'', File), (''d'', File), (''c'', File), (''b'', File), (''a'', File)])
             \<lparr> path = ''/d'', includeNested = True, maxEntries = 2 \<rparr> = Inr out \<and>
          itemCount out = 2 \<and> ListFilesOutput.truncated out) \<and>
   readDirectoryRecursive referenceCompare ''/d''
       (Dir [(''one'', Dir [(''a'', File), (''b'', File), (''c'', File)]),
             (''two'', Dir [(''x'', File), (''y'', File)])]) True
       \<lparr> count = 0, limit = 2, truncated = False \<rparr> =
     (\<lparr> count = 2, limit = 2, truncated = True \<rparr>,
      Inr [DirectoryItem ''one'' True (Some [DirectoryItem ''a'' False None None]) None]) \<and>
   count \<lparr> count = 2, limit = 2, truncated = True \<rparr> =
     count \<lparr> count = 0, limit = 2, truncated = False \<rparr> +
     listed [DirectoryItem ''one'' True (Some [DirectoryItem ''a'' False None None]) None] \<and>
   listed [DirectoryItem ''one'' True (Some [DirectoryItem ''a'' False None None]) None] = 2 \<and>
   forEntries referenceCompare ''/d''
       [(''one'', Dir [(''a'', File), (''b'', File), (''c'', File)])] True
       \<lparr> count = 0, limit = 2, truncated = False \<rparr> [] =
     (\<lparr> count = 2, limit = 2, truncated = True \<rparr>,
      [DirectoryItem ''one'' True (Some [DirectoryItem ''a'' False None None]) None]) \<and>
   forEntries referenceCompare ''/d''
       [(''one'', Dir [(''a'', File), (''b'', File), (''c'', File)]),
        (''two'', Dir [(''x'', File), (''y'', File)])] True
       \<lparr> count = 0, limit = 2, truncated = False \<rparr> [] =
     (\<lparr> count = 2, limit = 2, truncated = True \<rparr>,
      [DirectoryItem ''one'' True (Some [DirectoryItem ''a'' False None None]) None])"
proof -
  let ?b = "\<lparr> count = 0, limit = 2, truncated = False \<rparr>"
  let ?b2 = "\<lparr> count = 2, limit = 2, truncated = True \<rparr>"
  let ?dir = "Dir [(''e'', File), (''d'', File), (''c'', File), (''b'', File), (''a'', File)]"
  let ?one = "(''one'', Dir [(''a'', File), (''b'', File), (''c'', File)])"
  let ?two = "(''two'', Dir [(''x'', File), (''y'', File)])"
  let ?item = "DirectoryItem ''one'' True (Some [DirectoryItem ''a'' False None None]) None"
  let ?srv = "\<lparr> defaultFilesystemPath = None, fsBaseDirectory = None \<rparr>"
  let ?input = "\<lparr> path = ''/d'', includeNested = True, maxEntries = 2 \<rparr>"
  have h1: "count ?b \<le> limit ?b"
    by simp
  have h2: "TraversalState.truncated ?b \<longrightarrow> limit ?b \<le> count ?b"
    by simp
  have run: "readDirectoryRecursive referenceCompare ''/d'' ?dir True ?b =
      (?b2, Inr [DirectoryItem ''d'' False None None, DirectoryItem ''e'' False None None])"
    by code_simp
  have res: "resolvePath ''/'' ?srv (path ?input) = Inr ''/d''"
    by code_simp
  note t = traversal_budget [OF h1 h2, of referenceCompare "''/d''" ?dir True "[]" "[]"]
  from t [THEN conjunct1, rule_format, OF run] have le: "count ?b2 \<le> limit ?b2"
    by simp
  from t [THEN conjunct2, THEN conjunct2, THEN conjunct2, THEN conjunct1] res have ex: "\<exists>out. listFilesLogic referenceCompare ''/'' ?srv (\<lambda>p. ?dir) ?input = Inr out \<and>
      itemCount out = 2 \<and> ListFilesOutput.truncated out"
    by simp
  have h3: "\<not> TraversalState.truncated ?b"
    by simp
  have nested: "readDirectoryRecursive referenceCompare ''/d'' (Dir [?one, ?two]) True ?b =
      (?b2, Inr [?item])"
    by code_simp
  have first: "forEntries referenceCompare ''/d'' [?one] True ?b [] = (?b2, [?item])"
    by code_simp
  note u = traversal_budget [OF h1 h2, of referenceCompare "''/d''" "Dir [?one, ?two]" True
      "[]" "[]"]
  from u [THEN conjunct2, THEN conjunct2, THEN conjunct2, THEN conjunct2, THEN conjunct1, rule_format, OF nested]
  have acct: "count ?b2 = count ?b + listed [?item]"
    by simp
  then have two: "listed [?item] = 2"
    by simp
  from u [THEN conjunct2, THEN conjunct2, THEN conjunct2, THEN conjunct2, THEN conjunct2, THEN conjunct2, THEN conjunct2, THEN conjunct1, rule_format, OF first, of "[?two]"] have both: "forEntries referenceCompare ''/d'' [?one, ?two] True ?b [] =
      (?b2, [?item])"
    by simp
  from h1 h3 run le ex nested acct two first both show ?thesis
    by blast
qed

lemma compareItems_le: "compareItems cmp a b \<le> 0 \<longleftrightarrow> itemOrder cmp a b"
  by (auto simp: compareItems_def itemOrder_def)

lemma itemOrder_total: "consistentComparator cmp \<Longrightarrow> itemOrder cmp a b \<or> itemOrder cmp b a"
  unfolding consistentComparator_def itemOrder_def by blast

lemma itemOrder_trans:
  "consistentComparator cmp \<Longrightarrow> itemOrder cmp a b \<Longrightarrow> itemOrder cmp b c \<Longrightarrow> itemOrder cmp a c"
  unfolding consistentComparator_def itemOrder_def by blast

lemma set_insertItem: "set (insertItem cmp x ys) = insert x (set ys)"
  by (induction ys) auto

lemma set_sortItems: "set (sortItems cmp xs) = set xs"
  by (induction xs) (auto simp: set_insertItem)

lemma sorted_insertItem:
  assumes "consistentComparator cmp" and "sorted_wrt (itemOrder cmp) ys"
  shows "sorted_wrt (itemOrder cmp) (insertItem cmp x ys)"
  using assms(2)
proof (induction ys)
  case Nil
  then show ?case by simp
next
  case (Cons y ys)
  show ?case
  proof (cases "compareItems cmp x y \<le> 0")
    case True
    then have xy: "itemOrder cmp x y"
      by (simp add: compareItems_le)
    have "\<forall>z \<in> set ys. itemOrder cmp x z"
      using Cons.prems xy itemOrder_trans [OF assms(1)] by auto
    with True xy Cons.prems show ?thesis
      by simp
  next
    case False
    then have "itemOrder cmp y x"
      using itemOrder_total [OF assms(1), of x y] by (simp add: compareItems_le)
    with False Cons show ?thesis
      by (auto simp: set_insertItem)
  qed
qed

lemma sorted_sortItems:
  "consistentComparator cmp \<Longrightarrow> sorted_wrt (itemOrder cmp) (sortItems cmp xs)"
  by (induction xs) (simp_all add: sorted_insertItem)

lemma listing_ordered:
  "consistentComparator cmp \<Longrightarrow>
     (\<forall>items. snd (readDirectoryRecursive cmp dp node nested b) = Inr items \<longrightarrow>
        sorted_wrt (itemOrder cmp) items \<and> (\<forall>x \<in> set items. treeOrdered cmp x))"
  "consistentComparator cmp \<Longrightarrow> \<forall>x \<in> set acc. treeOrdered cmp x \<Longrightarrow>
     \<forall>x \<in> set (snd (forEntries cmp dp es nested b acc)). treeOrdered cmp x"
proof (induction cmp dp node nested b and cmp dp es nested b acc
    rule: readDirectoryRecursive_forEntries.induct)
  case (1 cmp dp node nested b)
  show ?case
  proof (cases "TraversalState.truncated b \<or> limit b \<le> count b")
    case True
    then show ?thesis
      by (auto simp: readDirectoryRecursive.simps)
  next
    case False
    show ?thesis
    proof (cases node)
      case File
      with False show ?thesis
        by (simp add: readDirectoryRecursive.simps)
    next
      case (Dir entries)
      have "\<forall>x \<in> set (snd (forEntries cmp dp entries nested b [])). treeOrdered cmp x"
        using "1.IH" [OF False Dir "1.prems"] by simp
      with False Dir "1.prems" show ?thesis
        by (auto simp: readDirectoryRecursive.simps sorted_sortItems set_sortItems
            split: prod.splits)
    next
      case (Unreadable e)
      with False show ?thesis
        by (simp add: readDirectoryRecursive.simps)
    qed
  qed
next
  case (2 cmp dp nested b acc)
  then show ?case by simp
next
  case (3 cmp dp entryName node rest nested b acc)
  show ?case
  proof (cases "limit b \<le> count b")
    case True
    with "3.prems" show ?thesis
      by (simp add: forEntries.simps(2))
  next
    case False
    let ?b1 = "b\<lparr> count := count b + 1 \<rparr>"
    let ?step = "(if entryIsDirectory node \<and> nested then
                 (case readDirectoryRecursive cmp (join [dp, entryName]) node nested ?b1 of
                    (state', Inr sub) \<Rightarrow>
                      (state', DirectoryItem entryName (entryIsDirectory node) (Some sub) None)
                  | (state', Inl e) \<Rightarrow>
                      (state', DirectoryItem entryName (entryIsDirectory node) None
                                 (Some (nestedErrorMessage e))))
               else (?b1, DirectoryItem entryName (entryIsDirectory node) None None))"
    obtain x y where xy: "(x, y) = ?step"
      by (cases ?step) simp
    have unfold: "forEntries cmp dp ((entryName, node) # rest) nested b acc =
        (if TraversalState.truncated x then (x, acc @ [y])
         else forEntries cmp dp rest nested x (acc @ [y]))"
      by (subst forEntries.simps(2)) (simp only: False if_False xy [symmetric] prod.case)
    have y: "treeOrdered cmp y"
    proof (cases "entryIsDirectory node \<and> nested")
      case True
      obtain s r where rr:
        "readDirectoryRecursive cmp (join [dp, entryName]) node nested ?b1 = (s, r)"
        by (cases "readDirectoryRecursive cmp (join [dp, entryName]) node nested ?b1") simp
      show ?thesis
      proof (cases r)
        case (Inl e)
        with xy True rr show ?thesis by simp
      next
        case (Inr sub)
        with "3.IH"(1) [OF False True "3.prems"(1)] rr
        have "sorted_wrt (itemOrder cmp) sub \<and> (\<forall>x \<in> set sub. treeOrdered cmp x)"
          by simp
        with xy True rr Inr show ?thesis by simp
      qed
    next
      case False
      with xy show ?thesis by simp
    qed
    have acc': "\<forall>z \<in> set (acc @ [y]). treeOrdered cmp z"
      using "3.prems"(2) y by simp
    show ?thesis
    proof (cases "TraversalState.truncated x")
      case True
      with acc' show ?thesis
        by (simp only: unfold if_True snd_conv)
    next
      case nt: False
      from "3.IH"(2) [OF False xy nt "3.prems"(1) acc'] nt show ?thesis
        by (simp only: unfold if_False)
    qed
  qed
qed

lemma referenceLe_total: "referenceLe a b \<or> referenceLe b a"
  unfolding referenceLe_def by (metis linorder_less_linear linorder_le_cases)

lemma referenceLe_trans: "referenceLe a b \<Longrightarrow> referenceLe b c \<Longrightarrow> referenceLe a c"
  unfolding referenceLe_def by (metis order_less_trans order_trans)

lemma referenceCompare_le: "referenceCompare a b \<le> 0 \<longleftrightarrow> referenceLe a b"
  by (simp add: referenceCompare_def)

lemma referenceCompare_consistent: "consistentComparator referenceCompare"
  unfolding consistentComparator_def referenceCompare_le
  using referenceLe_total referenceLe_trans by blast

lemma toLowerAscii_inject:
  "toLowerAscii c = toLowerAscii d \<Longrightarrow> isUpperAscii c = isUpperAscii d \<Longrightarrow> c = d"
proof (cases "isUpperAscii c")
  case False
  then show "toLowerAscii c = toLowerAscii d \<Longrightarrow> isUpperAscii c = isUpperAscii d \<Longrightarrow> c = d"
    by (simp add: toLowerAscii_def)
next
  case True
  assume e: "toLowerAscii c = toLowerAscii d" and u: "isUpperAscii c = isUpperAscii d"
  from True u have d: "isUpperAscii d" by simp
  from True have c90: "(of_char c :: nat) \<le> 90" by (simp add: isUpperAscii_def Let_def)
  from d have d90: "(of_char d :: nat) \<le> 90" by (simp add: isUpperAscii_def Let_def)
  from e True d have "char_of ((of_char c :: nat) + 32) = (char_of ((of_char d :: nat) + 32) :: char)"
    by (simp add: toLowerAscii_def)
  then have "(of_char (char_of ((of_char c :: nat) + 32) :: char) :: nat)
      = of_char (char_of ((of_char d :: nat) + 32) :: char)"
    by simp
  with c90 d90 have "(of_char c :: nat) = of_char d"
    by (simp add: of_char_of)
  then show "c = d"
    by simp
qed

lemma keys_inject: "primaryKey a = primaryKey b \<Longrightarrow> caseKey a = caseKey b \<Longrightarrow> a = b"
proof (induction a arbitrary: b)
  case Nil
  then show ?case by (simp add: primaryKey_def)
next
  case (Cons c a)
  then obtain d b' where b: "b = d # b'"
    by (cases b) (simp_all add: primaryKey_def)
  with Cons.prems have "toLowerAscii c = toLowerAscii d" "isUpperAscii c = isUpperAscii d"
    "primaryKey a = primaryKey b'" "caseKey a = caseKey b'"
    by (simp_all add: primaryKey_def caseKey_def)
  with Cons.IH [of b'] toLowerAscii_inject b show ?case
    by simp
qed

lemma referenceLe_antisym: "referenceLe a b \<Longrightarrow> referenceLe b a \<Longrightarrow> a = b"
proof -
  assume ab: "referenceLe a b" and ba: "referenceLe b a"
  from ab ba have p: "primaryKey a = primaryKey b"
    unfolding referenceLe_def by (metis order_less_asym)
  with ab ba have "caseKey a = caseKey b"
    unfolding referenceLe_def by (metis order_less_irrefl order_antisym)
  with p show ?thesis
    by (rule keys_inject)
qed

lemma length_insertItem: "length (insertItem cmp x ys) = Suc (length ys)"
  by (induction ys) simp_all

lemma length_sortItems: "length (sortItems cmp xs) = length xs"
  by (induction xs) (simp_all add: length_insertItem)

lemma itemOrder_reference:
  "itemOrder referenceCompare a b =
     ((isDirectory b \<longrightarrow> isDirectory a) \<and>
      (isDirectory a = isDirectory b \<longrightarrow> referenceLe (name a) (name b)))"
  by (simp add: itemOrder_def referenceCompare_le)

lemma listFilesLogic_ordered:
  assumes "consistentComparator cmp" and "listFilesLogic cmp cwd srv fsys input = Inr out"
  shows "sorted_wrt (itemOrder cmp) (tree out) \<and> (\<forall>x \<in> set (tree out). treeOrdered cmp x)"
proof -
  let ?b0 = "\<lparr> count = 0, limit = maxEntries input, truncated = False \<rparr>"
  obtain p where p: "resolvePath cwd srv (path input) = Inr p"
    using assms(2) by (cases "resolvePath cwd srv (path input)") (simp_all add: listFilesLogic_def)
  obtain b' r where br: "readDirectoryRecursive cmp p (fsys p) (includeNested input) ?b0 = (b', r)"
    by (cases "readDirectoryRecursive cmp p (fsys p) (includeNested input) ?b0") simp
  from assms(2) p br obtain items where r: "r = Inr items" and t: "tree out = items"
    by (cases r) (auto simp: listFilesLogic_def)
  from listing_ordered(1) [OF assms(1), of p "fsys p" "includeNested input" ?b0] br r t
  show ?thesis
    by simp
qed

lemma listing_example:
  assumes "resolvePath cwd srv (path input) = Inr p"
    and "fsys p = Dir [(''b.txt'', File), (''a.txt'', File), (''subdir'', Dir sub)]"
    and "\<not> includeNested input" and "3 \<le> maxEntries input" and "0 < cmp ''b.txt'' ''a.txt''"
    and "listFilesLogic cmp cwd srv fsys input = Inr out"
  shows "map name (tree out) = [''subdir'', ''a.txt'', ''b.txt'']"
  using assms
  by (auto simp: listFilesLogic_def readDirectoryRecursive.simps forEntries.simps(2)
      compareItems_def)

lemma reference_b_a: "0 < referenceCompare ''b.txt'' ''a.txt''"
  by code_simp

text \<open>
  Claim C7.  Under a consistent name comparison, every level of the result of
  \<open>readDirectoryRecursive\<close>, and so of \<open>listFilesLogic\<close>, is ordered: directories come
  before files, and within the directories and within the files the names ascend in the
  order of the comparison; sorting rearranges the items and drops none.  The comparison
  of the code is \<open>localeCompare\<close>: under \<open>referenceCompare\<close> the names of a level ascend
  in \<open>referenceLe\<close>, a linear order that looks at the letters without regard to case
  first and lets the case decide between names that are otherwise equal.  For the
  entries \<open>b.txt\<close>, \<open>a.txt\<close> and the directory \<open>subdir\<close>, listed without recursion, the
  order is \<open>subdir\<close>, \<open>a.txt\<close>, \<open>b.txt\<close>, under \<open>referenceCompare\<close> and under every
  comparison that puts \<open>a.txt\<close> before \<open>b.txt\<close>.  The order is not the case-sensitive one
  by character code: the files \<open>B\<close> and \<open>a\<close> are listed as \<open>a\<close>, \<open>B\<close>.
\<close>

theorem listing_order:
  assumes "consistentComparator cmp"
  shows
    "(\<forall>b' items. readDirectoryRecursive cmp dp node nested b = (b', Inr items) \<longrightarrow>
        sorted_wrt (itemOrder cmp) items \<and> (\<forall>x \<in> set items. treeOrdered cmp x)) \<and>
     (\<forall>cwd srv fsys input out. listFilesLogic cmp cwd srv fsys input = Inr out \<longrightarrow>
        sorted_wrt (itemOrder cmp) (tree out) \<and> (\<forall>x \<in> set (tree out). treeOrdered cmp x)) \<and>
     (\<forall>cwd srv fsys input p sub out.
        resolvePath cwd srv (path input) = Inr p \<and>
        fsys p = Dir [(''b.txt'', File), (''a.txt'', File), (''subdir'', Dir sub)] \<and>
        \<not> includeNested input \<and> 3 \<le> maxEntries input \<and> 0 < cmp ''b.txt'' ''a.txt'' \<and>
        listFilesLogic cmp cwd srv fsys input = Inr out \<longrightarrow>
        map name (tree out) = [''subdir'', ''a.txt'', ''b.txt'']) \<and>
     (\<forall>xs. set (sortItems cmp xs) = set xs \<and> length (sortItems cmp xs) = length xs) \<and>
     consistentComparator referenceCompare \<and>
     (\<forall>x y. referenceLe x y \<and> referenceLe y x \<longrightarrow> x = y) \<and>
     (\<forall>cwd srv fsys input out. listFilesLogic referenceCompare cwd srv fsys input = Inr out \<longrightarrow>
        sorted_wrt (\<lambda>x y. (isDirectory y \<longrightarrow> isDirectory x) \<and>
                          (isDirectory x = isDirectory y \<longrightarrow> referenceLe (name x) (name y)))
          (tree out) \<and>
        (\<forall>x \<in> set (tree out). treeOrdered referenceCompare x)) \<and>
     (\<forall>cwd srv fsys input p sub out.
        resolvePath cwd srv (path input) = Inr p \<and>
        fsys p = Dir [(''b.txt'', File), (''a.txt'', File), (''subdir'', Dir sub)] \<and>
        \<not> includeNested input \<and> 3 \<le> maxEntries input \<and>
        listFilesLogic referenceCompare cwd srv fsys input = Inr out \<longrightarrow>
        map name (tree out) = [''subdir'', ''a.txt'', ''b.txt''])"
proof -
  have a: "\<forall>b' items. readDirectoryRecursive cmp dp node nested b = (b', Inr items) \<longrightarrow>
        sorted_wrt (itemOrder cmp) items \<and> (\<forall>x \<in> set items. treeOrdered cmp x)"
    using listing_ordered(1) [OF assms, of dp node nested b] by auto
  have c: "\<forall>cwd srv fsys input out. listFilesLogic cmp cwd srv fsys input = Inr out \<longrightarrow>
        sorted_wrt (itemOrder cmp) (tree out) \<and> (\<forall>x \<in> set (tree out). treeOrdered cmp x)"
    using listFilesLogic_ordered [OF assms] by blast
  have e: "\<forall>cwd srv fsys input p sub out.
        resolvePath cwd srv (path input) = Inr p \<and>
        fsys p = Dir [(''b.txt'', File), (''a.txt'', File), (''subdir'', Dir sub)] \<and>
        \<not> includeNested input \<and> 3 \<le> maxEntries input \<and> 0 < cmp ''b.txt'' ''a.txt'' \<and>
        listFilesLogic cmp cwd srv fsys input = Inr out \<longrightarrow>
        map name (tree out) = [''subdir'', ''a.txt'', ''b.txt'']"
    using listing_example [of _ _ _ _ _ _ cmp] by blast
  have f: "\<forall>xs. set (sortItems cmp xs) = set xs \<and> length (sortItems cmp xs) = length xs"
    by (simp add: set_sortItems length_sortItems)
  have g: "\<forall>x y. referenceLe x y \<and> referenceLe y x \<longrightarrow> x = y"
    using referenceLe_antisym by blast
  have h: "\<forall>cwd srv fsys input out. listFilesLogic referenceCompare cwd srv fsys input = Inr out \<longrightarrow>
        sorted_wrt (\<lambda>x y. (isDirectory y \<longrightarrow> isDirectory x) \<and>
                          (isDirectory x = isDirectory y \<longrightarrow> referenceLe (name x) (name y)))
          (tree out) \<and>
        (\<forall>x \<in> set (tree out). treeOrdered referenceCompare x)"
  proof (intro allI impI)
    fix cwd srv fsys input out
    assume "listFilesLogic referenceCompare cwd srv fsys input = Inr out"
    from listFilesLogic_ordered [OF referenceCompare_consistent this]
    have "sorted_wrt (itemOrder referenceCompare) (tree out) \<and>
        (\<forall>x \<in> set (tree out). treeOrdered referenceCompare x)" .
    moreover have "itemOrder referenceCompare =
        (\<lambda>x y. (isDirectory y \<longrightarrow> isDirectory x) \<and>
                (isDirectory x = isDirectory y \<longrightarrow> referenceLe (name x) (name y)))"
      by (intro ext) (rule itemOrder_reference)
    ultimately show "sorted_wrt (\<lambda>x y. (isDirectory y \<longrightarrow> isDirectory x) \<and>
                          (isDirectory x = isDirectory y \<longrightarrow> referenceLe (name x) (name y)))
          (tree out) \<and>
        (\<forall>x \<in> set (tree out). treeOrdered referenceCompare x)"
      by simp
  qed
  have i: "\<forall>cwd srv fsys input p sub out.
        resolvePath cwd srv (path input) = Inr p \<and>
        fsys p = Dir [(''b.txt'', File), (''a.txt'', File), (''subdir'', Dir sub)] \<and>
        \<not> includeNested input \<and> 3 \<le> maxEntries input \<and>
        listFilesLogic referenceCompare cwd srv fsys input = Inr out \<longrightarrow>
        map name (tree out) = [''subdir'', ''a.txt'', ''b.txt'']"
    using listing_example [of _ _ _ _ _ _ referenceCompare, OF _ _ _ _ reference_b_a] by blast
  from a c e f referenceCompare_consistent g h i show ?thesis
    by blast
qed

theorem listing_order_witness:
  "consistentComparator referenceCompare \<and>
   listFilesLogic referenceCompare ''/''
       \<lparr> defaultFilesystemPath = None, fsBaseDirectory = None \<rparr>
       (\<lambda>p. Dir [(''b.txt'', File), (''B.md'', File), (''a.txt'', File),
                 (''subdir'', Dir [(''z'', File), (''Y'', File), (''a'', File)]),
                 (''Docs'', Dir [])])
       \<lparr> path = ''/d'', includeNested = True, maxEntries = 50 \<rparr> =
     Inr \<lparr> requestedPath = ''/d'', resolvedPath = ''/d'',
           tree = [DirectoryItem ''Docs'' True (Some []) None,
                   DirectoryItem ''subdir'' True
                     (Some [DirectoryItem ''a'' False None None,
                            DirectoryItem ''Y'' False None None,
                            DirectoryItem ''z'' False None None])
                     None,
                   DirectoryItem ''a.txt'' False None None,
                   DirectoryItem ''B.md'' False None None,
                   DirectoryItem ''b.txt'' False None None],
           itemCount = 8, truncated = False \<rparr> \<and>
   sorted_wrt (\<lambda>x y. (isDirectory y \<longrightarrow> isDirectory x) \<and>
                     (isDirectory x = isDirectory y \<longrightarrow> referenceLe (name x) (name y)))
     [DirectoryItem ''Docs'' True (Some []) None,
      DirectoryItem ''subdir'' True
        (Some [DirectoryItem ''a'' False None None,
               DirectoryItem ''Y'' False None None,
               DirectoryItem ''z'' False None None])
        None,
      DirectoryItem ''a.txt'' False None None,
      DirectoryItem ''B.md'' False None None,
      DirectoryItem ''b.txt'' False None None] \<and>
   resolvePath ''/'' \<lparr> defaultFilesystemPath = None, fsBaseDirectory = None \<rparr> ''/d'' = Inr ''/d'' \<and>
   (\<exists>out. listFilesLogic referenceCompare ''/''
       \<lparr> defaultFilesystemPath = None, fsBaseDirectory = None \<rparr>
       (\<lambda>p. Dir [(''b.txt'', File), (''a.txt'', File), (''subdir'', Dir [(''z'', File), (''Y'', File)])])
       \<lparr> path = ''/d'', includeNested = False, maxEntries = 50 \<rparr> = Inr out \<and>
     map name (tree out) = [''subdir'', ''a.txt'', ''b.txt''])"
proof -
  let ?srv = "\<lparr> defaultFilesystemPath = None, fsBaseDirectory = None \<rparr>"
  let ?fs = "\<lambda>p::string. Dir [(''b.txt'', File), (''B.md'', File), (''a.txt'', File),
                 (''subdir'', Dir [(''z'', File), (''Y'', File), (''a'', File)]),
                 (''Docs'', Dir [])]"
  let ?fs3 = "\<lambda>p::string. Dir [(''b.txt'', File), (''a.txt'', File),
                               (''subdir'', Dir [(''z'', File), (''Y'', File)])]"
  let ?tree = "[DirectoryItem ''Docs'' True (Some []) None,
      DirectoryItem ''subdir'' True
        (Some [DirectoryItem ''a'' False None None,
               DirectoryItem ''Y'' False None None,
               DirectoryItem ''z'' False None None])
        None,
      DirectoryItem ''a.txt'' False None None,
      DirectoryItem ''B.md'' False None None,
      DirectoryItem ''b.txt'' False None None]"
  let ?out = "\<lparr> requestedPath = ''/d'', resolvedPath = ''/d'', tree = ?tree,
           itemCount = 8, truncated = False \<rparr>"
  let ?deep = "\<lparr> path = ''/d'', includeNested = True, maxEntries = 50 \<rparr>"
  let ?flat = "\<lparr> path = ''/d'', includeNested = False, maxEntries = 50 \<rparr>"
  have cons: "consistentComparator referenceCompare"
    unfolding consistentComparator_def referenceCompare_le
    using referenceLe_total referenceLe_trans by blast
  have run: "listFilesLogic referenceCompare ''/'' ?srv ?fs ?deep = Inr ?out"
    by code_simp
  have res: "resolvePath ''/'' ?srv ''/d'' = Inr ''/d''"
    by code_simp
  note t = listing_order [OF cons, of "''/d''" File True
      "\<lparr> count = 0, limit = 50, truncated = False \<rparr>"]
  note named = t [THEN conjunct2, THEN conjunct2, THEN conjunct2, THEN conjunct2,
      THEN conjunct2, THEN conjunct2, THEN conjunct1, rule_format, OF run, THEN conjunct1]
  then have s: "sorted_wrt (\<lambda>x y. (isDirectory y \<longrightarrow> isDirectory x) \<and>
                     (isDirectory x = isDirectory y \<longrightarrow> referenceLe (name x) (name y))) ?tree"
    by simp
  have flat: "listFilesLogic referenceCompare ''/'' ?srv ?fs3 ?flat =
      Inr \<lparr> requestedPath = ''/d'', resolvedPath = ''/d'',
            tree = [DirectoryItem ''subdir'' True None None,
                    DirectoryItem ''a.txt'' False None None,
                    DirectoryItem ''b.txt'' False None None],
            itemCount = 3, truncated = False \<rparr>"
    by code_simp
  have "map name (tree out) = [''subdir'', ''a.txt'', ''b.txt'']"
    if h: "listFilesLogic referenceCompare ''/'' ?srv ?fs3 ?flat = Inr out" for out
    using t [THEN conjunct2, THEN conjunct2, THEN conjunct2, THEN conjunct2,
        THEN conjunct2, THEN conjunct2, THEN conjunct2, rule_format,
        of "''/''" ?srv ?flat "''/d''" ?fs3 "[(''z'', File), (''Y'', File)]" out] res h
    by simp
  with flat have e: "\<exists>out. listFilesLogic referenceCompare ''/'' ?srv ?fs3 ?flat = Inr out \<and>
     map name (tree out) = [''subdir'', ''a.txt'', ''b.txt'']"
    by blast
  from cons run s res e show ?thesis
    by blast
qed

theorem listing_order_counterexample:
  "listFilesLogic referenceCompare ''/''
       \<lparr> defaultFilesystemPath = None, fsBaseDirectory = None \<rparr>
       (\<lambda>p. Dir [(''B'', File), (''a'', File)])
       \<lparr> path = ''/d'', includeNested = False, maxEntries = 50 \<rparr> =
     Inr \<lparr> requestedPath = ''/d'', resolvedPath = ''/d'',
           tree = [DirectoryItem ''a'' False None None, DirectoryItem ''B'' False None None],
           itemCount = 2, truncated = False \<rparr> \<and>
   ''B'' < ''a'' \<and> codepointCompare ''B'' ''a'' = - 1"
  by code_simp

lemma readdirFailure_message_nonempty: "message (readdirFailure dp e) \<noteq> []"
  by (cases e) (simp_all add: readdirFailure_def)

lemma nested_failure_step:
  assumes "count b + 1 < limit b" and "\<not> TraversalState.truncated b"
  shows "forEntries cmp dp ((entryName, Unreadable e) # rest) True b acc =
     forEntries cmp dp rest True (b\<lparr> count := count b + 1 \<rparr>)
       (acc @ [DirectoryItem entryName True None
                 (Some (message (readdirFailure (join [dp, entryName]) e)))])"
  using assms
  by (simp add: forEntries.simps(2) readDirectoryRecursive.simps nestedErrorMessage_def
      readdirFailure_message_nonempty)

lemma readDirectoryRecursive_Dir_returns:
  "\<exists>b' items. readDirectoryRecursive cmp dp (Dir es) nested b = (b', Inr items)"
  by (simp add: readDirectoryRecursive.simps split: prod.split)

lemma listFilesLogic_root:
  assumes "0 < maxEntries input" and "resolvePath cwd srv (path input) = Inr p"
  shows "fsys p = Unreadable e \<Longrightarrow>
           listFilesLogic cmp cwd srv fsys input = Inl (readdirFailure p e)"
    and "fsys p = File \<Longrightarrow>
           listFilesLogic cmp cwd srv fsys input = Inl (readdirFailure p ENOTDIR)"
    and "fsys p = Dir es \<Longrightarrow> \<exists>out. listFilesLogic cmp cwd srv fsys input = Inr out"
  using assms
  by (auto simp: listFilesLogic_def readDirectoryRecursive.simps split: prod.split)

text \<open>
  Claim C9.  When the root cannot be read the call of \<open>listFilesLogic\<close> fails, whatever
  the failure is, with the error of the read: \<open>NOT_FOUND\<close> when the root does not exist,
  \<open>VALIDATION_ERROR\<close> when it is not a directory, and \<open>INTERNAL_ERROR\<close> with the message of
  the failure otherwise; the call returns a listing exactly when the root is a readable
  directory.  When a nested directory cannot be read, the loop over the entries records
  the message of the error on the item of that directory, leaves its children out and
  goes on with the entries that follow; the enumeration of a readable directory returns
  a listing whatever lies below it.
\<close>

theorem read_failures:
  "(\<forall>p. 0 < maxEntries input \<and> resolvePath cwd srv (path input) = Inr p \<longrightarrow>
      (fsys p = Unreadable ENOENT \<longrightarrow>
         listFilesLogic cmp cwd srv fsys input =
           Inl (McpError NOT_FOUND (''Directory not found at path: '' @ p))) \<and>
      (fsys p = File \<or> fsys p = Unreadable ENOTDIR \<longrightarrow>
         listFilesLogic cmp cwd srv fsys input =
           Inl (McpError VALIDATION_ERROR (''Path is not a directory: '' @ p))) \<and>
      (\<forall>msg. fsys p = Unreadable (OtherError msg) \<longrightarrow>
         listFilesLogic cmp cwd srv fsys input =
           Inl (McpError INTERNAL_ERROR (''Failed to read directory: '' @ msg))) \<and>
      (\<forall>e. fsys p = Unreadable e \<longrightarrow>
         listFilesLogic cmp cwd srv fsys input = Inl (readdirFailure p e)) \<and>
      ((\<exists>out. listFilesLogic cmp cwd srv fsys input = Inr out) \<longleftrightarrow>
       (\<exists>entries. fsys p = Dir entries)) \<and>
      ((\<exists>err. listFilesLogic cmp cwd srv fsys input = Inl err) \<longleftrightarrow>
       (fsys p = File \<or> (\<exists>e. fsys p = Unreadable e)))) \<and>
   (count b + 1 < limit b \<and> \<not> TraversalState.truncated b \<longrightarrow>
      forEntries cmp dp ((entryName, Unreadable e) # rest) True b acc =
        forEntries cmp dp rest True (b\<lparr> count := count b + 1 \<rparr>)
          (acc @ [DirectoryItem entryName True None
                    (Some (message (readdirFailure (join [dp, entryName]) e)))])) \<and>
   (\<exists>b' items. readDirectoryRecursive cmp dp (Dir es) nested b = (b', Inr items))"
proof -
  have root: "(fsys p = Unreadable ENOENT \<longrightarrow>
         listFilesLogic cmp cwd srv fsys input =
           Inl (McpError NOT_FOUND (''Directory not found at path: '' @ p))) \<and>
      (fsys p = File \<or> fsys p = Unreadable ENOTDIR \<longrightarrow>
         listFilesLogic cmp cwd srv fsys input =
           Inl (McpError VALIDATION_ERROR (''Path is not a directory: '' @ p))) \<and>
      (\<forall>msg. fsys p = Unreadable (OtherError msg) \<longrightarrow>
         listFilesLogic cmp cwd srv fsys input =
           Inl (McpError INTERNAL_ERROR (''Failed to read directory: '' @ msg))) \<and>
      (\<forall>e. fsys p = Unreadable e \<longrightarrow>
         listFilesLogic cmp cwd srv fsys input = Inl (readdirFailure p e)) \<and>
      ((\<exists>out. listFilesLogic cmp cwd srv fsys input = Inr out) \<longleftrightarrow>
       (\<exists>entries. fsys p = Dir entries)) \<and>
      ((\<exists>err. listFilesLogic cmp cwd srv fsys input = Inl err) \<longleftrightarrow>
       (fsys p = File \<or> (\<exists>e. fsys p = Unreadable e)))"
    if h: "0 < maxEntries input \<and> resolvePath cwd srv (path input) = Inr p" for p
  proof -
    from h have pos: "0 < maxEntries input" and res: "resolvePath cwd srv (path input) = Inr p"
      by simp_all
    note r = listFilesLogic_root [OF pos res, of fsys]
    have u: "listFilesLogic cmp cwd srv fsys input = Inl (readdirFailure p e)"
      if "fsys p = Unreadable e" for e
      using that by (rule r(1))
    have f: "listFilesLogic cmp cwd srv fsys input = Inl (readdirFailure p ENOTDIR)"
      if "fsys p = File"
      using that by (rule r(2))
    have d: "\<exists>out. listFilesLogic cmp cwd srv fsys input = Inr out"
      if "fsys p = Dir entries" for entries
      using that by (rule r(3))
    have c1: "fsys p = Unreadable ENOENT \<longrightarrow>
         listFilesLogic cmp cwd srv fsys input =
           Inl (McpError NOT_FOUND (''Directory not found at path: '' @ p))"
      using u [of ENOENT] by (simp add: readdirFailure_def)
    have c2: "fsys p = File \<or> fsys p = Unreadable ENOTDIR \<longrightarrow>
         listFilesLogic cmp cwd srv fsys input =
           Inl (McpError VALIDATION_ERROR (''Path is not a directory: '' @ p))"
      using u [of ENOTDIR] f by (auto simp: readdirFailure_def)
    have c3: "\<forall>msg. fsys p = Unreadable (OtherError msg) \<longrightarrow>
         listFilesLogic cmp cwd srv fsys input =
           Inl (McpError INTERNAL_ERROR (''Failed to read directory: '' @ msg))"
      using u by (auto simp: readdirFailure_def)
    have c4: "\<forall>e. fsys p = Unreadable e \<longrightarrow>
         listFilesLogic cmp cwd srv fsys input = Inl (readdirFailure p e)"
      using u by blast
    have c5: "(\<exists>out. listFilesLogic cmp cwd srv fsys input = Inr out) \<longleftrightarrow>
       (\<exists>entries. fsys p = Dir entries)"
      using u f d by (cases "fsys p") auto
    have c6: "(\<exists>err. listFilesLogic cmp cwd srv fsys input = Inl err) \<longleftrightarrow>
       (fsys p = File \<or> (\<exists>e. fsys p = Unreadable e))"
      using u f d by (cases "fsys p") auto
    from c1 c2 c3 c4 c5 c6 show ?thesis
      by blast
  qed
  from root nested_failure_step [of b cmp dp entryName e rest acc]
    readDirectoryRecursive_Dir_returns [of cmp dp es nested b]
  show ?thesis
    by blast
qed

theorem read_failures_witness:
  "0 < maxEntries \<lparr> path = ''/gone'', includeNested = True, maxEntries = 50 \<rparr> \<and>
   resolvePath ''/'' \<lparr> defaultFilesystemPath = None, fsBaseDirectory = None \<rparr> ''/gone'' = Inr ''/gone'' \<and>
   listFilesLogic referenceCompare ''/'' \<lparr> defaultFilesystemPath = None, fsBaseDirectory = None \<rparr>
       (\<lambda>p. Unreadable ENOENT) \<lparr> path = ''/gone'', includeNested = True, maxEntries = 50 \<rparr> =
     Inl (McpError NOT_FOUND ''Directory not found at path: /gone'') \<and>
   listFilesLogic referenceCompare ''/'' \<lparr> defaultFilesystemPath = None, fsBaseDirectory = None \<rparr>
       (\<lambda>p. File) \<lparr> path = ''/gone'', includeNested = True, maxEntries = 50 \<rparr> =
     Inl (McpError VALIDATION_ERROR ''Path is not a directory: /gone'') \<and>
   listFilesLogic referenceCompare ''/'' \<lparr> defaultFilesystemPath = None, fsBaseDirectory = None \<rparr>
       (\<lambda>p. Unreadable (OtherError ''EACCES: permission denied''))
       \<lparr> path = ''/gone'', includeNested = True, maxEntries = 50 \<rparr> =
     Inl (McpError INTERNAL_ERROR ''Failed to read directory: EACCES: permission denied'') \<and>
   (\<exists>out. listFilesLogic referenceCompare ''/''
       \<lparr> defaultFilesystemPath = None, fsBaseDirectory = None \<rparr>
       (\<lambda>p. Dir [(''locked'', Unreadable (OtherError ''EACCES'')), (''a'', File)])
       \<lparr> path = ''/gone'', includeNested = True, maxEntries = 50 \<rparr> = Inr out) \<and>
   forEntries referenceCompare ''/d'' [(''locked'', Unreadable (OtherError ''EACCES'')), (''a'', File)]
       True \<lparr> count = 0, limit = 50, truncated = False \<rparr> [] =
     (\<lparr> count = 2, limit = 50, truncated = False \<rparr>,
      [DirectoryItem ''locked'' True None (Some ''Failed to read directory: EACCES''),
       DirectoryItem ''a'' False None None])"
proof -
  let ?srv = "\<lparr> defaultFilesystemPath = None, fsBaseDirectory = None \<rparr>"
  let ?input = "\<lparr> path = ''/gone'', includeNested = True, maxEntries = 50 \<rparr>"
  let ?b = "\<lparr> count = 0, limit = 50, truncated = False \<rparr>"
  let ?es = "[(''locked'', Unreadable (OtherError ''EACCES'')), (''a'', File)]"
  have pos: "0 < maxEntries ?input"
    by simp
  have res: "resolvePath ''/'' ?srv ''/gone'' = Inr ''/gone''"
    by code_simp
  have pr: "0 < maxEntries ?input \<and> resolvePath ''/'' ?srv (path ?input) = Inr ''/gone''"
    using pos res by simp
  have room: "count ?b + 1 < limit ?b \<and> \<not> TraversalState.truncated ?b"
    by simp
  have after: "forEntries referenceCompare ''/d'' [(''a'', File)] True (?b\<lparr> count := count ?b + 1 \<rparr>)
       ([] @ [DirectoryItem ''locked'' True None
          (Some (message (readdirFailure (join [''/d'', ''locked'']) (OtherError ''EACCES''))))]) =
     (\<lparr> count = 2, limit = 50, truncated = False \<rparr>,
      [DirectoryItem ''locked'' True None (Some ''Failed to read directory: EACCES''),
       DirectoryItem ''a'' False None None])"
    by code_simp
  note t = read_failures [where input = ?input and cwd = "''/''" and srv = ?srv
      and cmp = referenceCompare and b = ?b and dp = "''/d''" and entryName = "''locked''"
      and e = "OtherError ''EACCES''" and rest = "[(''a'', File)]" and acc = "[]"
      and es = "[]" and nested = True]
  note gone = t [where fsys = "\<lambda>p. Unreadable ENOENT", THEN conjunct1, rule_format, OF pr]
  note notdir = t [where fsys = "\<lambda>p. File", THEN conjunct1, rule_format, OF pr]
  note denied = t [where fsys = "\<lambda>p. Unreadable (OtherError ''EACCES: permission denied'')",
      THEN conjunct1, rule_format, OF pr]
  note readable = t [where fsys = "\<lambda>p. Dir ?es", THEN conjunct1, rule_format, OF pr]
  from gone have g: "listFilesLogic referenceCompare ''/'' ?srv (\<lambda>p. Unreadable ENOENT) ?input =
     Inl (McpError NOT_FOUND ''Directory not found at path: /gone'')"
    by simp
  from notdir have n: "listFilesLogic referenceCompare ''/'' ?srv (\<lambda>p. File) ?input =
     Inl (McpError VALIDATION_ERROR ''Path is not a directory: /gone'')"
    by simp
  from denied have d: "listFilesLogic referenceCompare ''/'' ?srv
       (\<lambda>p. Unreadable (OtherError ''EACCES: permission denied'')) ?input =
     Inl (McpError INTERNAL_ERROR ''Failed to read directory: EACCES: permission denied'')"
    by simp
  from readable have r: "\<exists>out. listFilesLogic referenceCompare ''/'' ?srv (\<lambda>p. Dir ?es) ?input = Inr out"
    by simp
  from t [where fsys = "\<lambda>p. File", THEN conjunct2, THEN conjunct1] room after
  have f: "forEntries referenceCompare ''/d'' ?es True ?b [] =
     (\<lparr> count = 2, limit = 50, truncated = False \<rparr>,
      [DirectoryItem ''locked'' True None (Some ''Failed to read directory: EACCES''),
       DirectoryItem ''a'' False None None])"
    by simp
  from pos res g n d r f show ?thesis
    by simp
qed

section \<open>Properties of the exclusion patterns\<close>

lemma shouldExclude_single:
  "shouldExclude mm [pattern] rel \<longleftrightarrow>
      (if CHR ''*'' \<in> set pattern then mm rel pattern
       else mm rel pattern \<or> mm rel (''**/'' @ pattern) \<or> mm rel (''**/'' @ pattern @ ''/**''))"
  by (simp add: shouldExclude_def)

lemma shouldExclude_some:
  "shouldExclude mm pats rel \<longleftrightarrow> (\<exists>pattern \<in> set pats. shouldExclude mm [pattern] rel)"
  by (simp add: shouldExclude_def list_ex_iff)

lemma buildEntries_names:
  "buildEntries mm cwd cur es root pats acc = Inr res \<Longrightarrow>
     map treeEntryName res =
       map treeEntryName acc @
       filter (\<lambda>n. \<not> shouldExclude mm pats (relative cwd root (join [cur, n]))) (map fst es)"
proof (induction es arbitrary: acc)
  case Nil
  then show ?case by simp
next
  case (Cons entry es)
  obtain n node where entry: "entry = (n, node)"
    by (cases entry)
  show ?case
  proof (cases "shouldExclude mm pats (relative cwd root (join [cur, n]))")
    case True
    with Cons entry show ?thesis by simp
  next
    case False
    show ?thesis
    proof (cases "entryIsDirectory node")
      case dir: True
      show ?thesis
      proof (cases "buildTreeForTesting mm cwd (join [cur, n]) node root pats")
        case (Inl e)
        with Cons.prems entry False dir show ?thesis by simp
      next
        case (Inr sub)
        with Cons.prems entry False dir
        have "buildEntries mm cwd cur es root pats (acc @ [TreeEntry n TypeDirectory (Some sub)]) = Inr res"
          by simp
        from Cons.IH [OF this] entry False show ?thesis by simp
      qed
    next
      case nodir: False
      with Cons.prems entry False
      have "buildEntries mm cwd cur es root pats (acc @ [TreeEntry n TypeFile None]) = Inr res"
        by simp
      from Cons.IH [OF this] entry False show ?thesis by simp
    qed
  qed
qed

text \<open>
  Claim C8, as the code has it.  For a pattern without \<^verbatim>\<open>*\<close> an entry is excluded exactly
  when its path relative to the root matches the pattern, or \<^verbatim>\<open>**/pattern\<close>, or
  \<^verbatim>\<open>**/pattern/**\<close>; for a pattern that contains \<^verbatim>\<open>*\<close> it is excluded exactly when the
  path matches the pattern itself.  With a list of patterns an entry is excluded exactly
  when one of them excludes it, and the names that \<open>buildTreeForTesting\<close> lists in a
  directory are those of the entries that are not excluded, in their order.  The pattern
  \<open>node_modules\<close> excludes \<open>node_modules\<close> and \<open>nested/node_modules\<close>; the pattern \<open>.env\<close>
  excludes \<open>.env\<close> and not \<open>.env.local\<close>.
\<close>

theorem exclusion_forms:
  "(shouldExclude mm [pattern] rel \<longleftrightarrow>
      (if CHR ''*'' \<in> set pattern then mm rel pattern
       else mm rel pattern \<or> mm rel (''**/'' @ pattern) \<or> mm rel (''**/'' @ pattern @ ''/**''))) \<and>
   (shouldExclude mm pats rel \<longleftrightarrow> (\<exists>q \<in> set pats. shouldExclude mm [q] rel)) \<and>
   (\<forall>res. buildTreeForTesting mm cwd cur (Dir es) root pats = Inr res \<longrightarrow>
      map treeEntryName res =
        filter (\<lambda>n. \<not> shouldExclude mm pats (relative cwd root (join [cur, n]))) (map fst es)) \<and>
   shouldExclude globMatch [''node_modules''] ''node_modules'' \<and>
   shouldExclude globMatch [''node_modules''] ''nested/node_modules'' \<and>
   shouldExclude globMatch [''.env''] ''.env'' \<and>
   \<not> shouldExclude globMatch [''.env''] ''.env.local''"
proof -
  have names: "\<forall>res. buildTreeForTesting mm cwd cur (Dir es) root pats = Inr res \<longrightarrow>
      map treeEntryName res =
        filter (\<lambda>n. \<not> shouldExclude mm pats (relative cwd root (join [cur, n]))) (map fst es)"
    using buildEntries_names [of mm cwd cur es root pats "[]"] by simp
  have e1: "shouldExclude globMatch [''node_modules''] ''node_modules''"
    by code_simp
  have e2: "shouldExclude globMatch [''node_modules''] ''nested/node_modules''"
    by code_simp
  have e3: "shouldExclude globMatch [''.env''] ''.env''"
    by code_simp
  have e4: "\<not> shouldExclude globMatch [''.env''] ''.env.local''"
    by code_simp
  from shouldExclude_single [of mm pattern rel] shouldExclude_some [of mm pats rel] names e1 e2 e3 e4
  show ?thesis
    by blast
qed

theorem exclusion_forms_witness:
  "buildTreeForTesting globMatch ''/'' ''/t''
      (Dir [(''src'', Dir [(''index.js'', File)]),
            (''node_modules'', Dir [(''module.js'', File)]),
            (''.git'', Dir []),
            (''nested'', Dir [(''node_modules'', Dir [(''deep.js'', File)])]),
            (''.env'', File), (''.env.local'', File), (''package.json'', File)])
      ''/t'' [''node_modules'', ''.env''] =
    Inr [TreeEntry ''src'' TypeDirectory (Some [TreeEntry ''index.js'' TypeFile None]),
         TreeEntry ''.git'' TypeDirectory (Some []),
         TreeEntry ''nested'' TypeDirectory (Some []),
         TreeEntry ''.env.local'' TypeFile None,
         TreeEntry ''package.json'' TypeFile None] \<and>
   filter (\<lambda>n. \<not> shouldExclude globMatch [''node_modules'', ''.env'']
                   (relative ''/'' ''/t'' (join [''/t'', n])))
     [''src'', ''node_modules'', ''.git'', ''nested'', ''.env'', ''.env.local'', ''package.json''] =
     [''src'', ''.git'', ''nested'', ''.env.local'', ''package.json'']"
proof -
  let ?es = "[(''src'', Dir [(''index.js'', File)]),
            (''node_modules'', Dir [(''module.js'', File)]),
            (''.git'', Dir []),
            (''nested'', Dir [(''node_modules'', Dir [(''deep.js'', File)])]),
            (''.env'', File), (''.env.local'', File), (''package.json'', File)]"
  let ?res = "[TreeEntry ''src'' TypeDirectory (Some [TreeEntry ''index.js'' TypeFile None]),
         TreeEntry ''.git'' TypeDirectory (Some []),
         TreeEntry ''nested'' TypeDirectory (Some []),
         TreeEntry ''.env.local'' TypeFile None,
         TreeEntry ''package.json'' TypeFile None]"
  have run: "buildTreeForTesting globMatch ''/'' ''/t'' (Dir ?es) ''/t'' [''node_modules'', ''.env'']
      = Inr ?res"
    by code_simp
  from exclusion_forms [of globMatch "''x''" "''y''" "[''node_modules'', ''.env'']" "''/''" "''/t''"
      ?es "''/t''"] run
  have "map treeEntryName ?res =
      filter (\<lambda>n. \<not> shouldExclude globMatch [''node_modules'', ''.env'']
                      (relative ''/'' ''/t'' (join [''/t'', n]))) (map fst ?es)"
    by blast
  with run show ?thesis
    by simp
qed

text \<open>
  The claim as stated fails for a pattern with \<^verbatim>\<open>*\<close>: \<open>src/index.js\<close> matches
  \<^verbatim>\<open>**/*.js\<close>, yet the pattern \<^verbatim>\<open>*.js\<close> does not exclude it.
\<close>

theorem exclusion_forms_counterexample:
  "\<not> (shouldExclude globMatch [''*.js''] ''src/index.js'' \<longleftrightarrow>
        (globMatch ''src/index.js'' ''*.js'' \<or>
         globMatch ''src/index.js'' (''**/'' @ ''*.js'') \<or>
         globMatch ''src/index.js'' (''**/'' @ ''*.js'' @ ''/**'')))"
  by code_simp

end
